theory Spec2Isabelle
  imports Main "HOL-Library.Sublist"
begin

section \<open>Data model of log.c\<close>

text \<open>
  Levels, line numbers and return codes are C \<open>int\<close>s that are only compared and stored,
  never computed with, so they are modelled as \<open>int\<close>. Pointers are values that may be
  null: a callback pointer is an \<open>option\<close> (\<open>None\<close> is \<open>NULL\<close>), a data pointer is a
  \<open>ptr\<close>.
\<close>

datatype ptr = NULL | Stderr | Addr nat

text \<open>
  The functions a registry slot can point to: the built-in \<open>file_callback\<close>, or code of
  the embedding application, known to the logger only by its address.
\<close>

datatype fnptr = File_callback | User_fn nat

type_synonym log_LogFn = "fnptr option"

type_synonym log_LockFn = "nat option"

text \<open>The \<open>struct tm\<close> that \<open>localtime\<close> hands out, kept abstract.\<close>

type_synonym tm = nat

text \<open>
  \<open>log_Event\<close> of log.h. The \<open>va_list\<close> field is left out: the model keeps the format
  template and does not expand it.
\<close>

record log_Event =
  ev_fmt :: string
  ev_file :: string
  ev_time :: "tm option"
  ev_udata :: ptr
  ev_line :: int
  ev_level :: int

record Callback =
  cb_fn :: log_LogFn
  cb_udata :: ptr
  cb_level :: int

text \<open>The static struct \<open>L\<close>.\<close>

record logger =
  L_udata :: ptr
  L_lock :: log_LockFn
  L_level :: int
  L_quiet :: bool
  L_callbacks :: "Callback list"

definition MAX_CALLBACKS :: nat where
  "MAX_CALLBACKS = 32"

text \<open>\<open>L\<close> has static storage, so it starts with every byte zero.\<close>

definition zero_Callback :: Callback where
  "zero_Callback = \<lparr>cb_fn = None, cb_udata = NULL, cb_level = 0\<rparr>"

definition L_init :: logger where
  "L_init = \<lparr>L_udata = NULL, L_lock = None, L_level = 0, L_quiet = False,
     L_callbacks = replicate MAX_CALLBACKS zero_Callback\<rparr>"

text \<open>The array \<open>callbacks\<close> has exactly \<open>MAX_CALLBACKS\<close> slots.\<close>

definition wf_logger :: "logger \<Rightarrow> bool" where
  "wf_logger L = (length (L_callbacks L) = MAX_CALLBACKS)"

definition level_strings :: "string list" where
  "level_strings = [''TRACE'', ''DEBUG'', ''INFO'', ''WARN'', ''ERROR'', ''FATAL'']"

definition level_colors :: "string list" where
  "level_colors =
     [CHR 0x1B # ''[90m'', CHR 0x1B # ''[36m'', CHR 0x1B # ''[32m'',
      CHR 0x1B # ''[33m'', CHR 0x1B # ''[31m'', CHR 0x1B # ''[91m'']"

text \<open>The six values of the enumeration \<open>LOG_TRACE .. LOG_FATAL\<close>.\<close>

definition is_level :: "int \<Rightarrow> bool" where
  "is_level l = (0 \<le> l \<and> l < 6)"

section \<open>Faults\<close>

text \<open>
  C gives no meaning to \<open>t[i]\<close> outside the table or to reading through a null pointer.
  The model makes both a value: the step that would do it yields a fault and nothing
  after it runs.
\<close>

datatype fault = OutOfBounds | NullDeref

definition index_table :: "'a list \<Rightarrow> int \<Rightarrow> fault + 'a" where
  "index_table t i =
     (if 0 \<le> i \<and> i < int (length t) then Inr (t ! nat i) else Inl OutOfBounds)"

section \<open>\<open>log_level_string\<close>\<close>

definition log_level_string :: "int \<Rightarrow> string" where
  "log_level_string level =
     (if level < 0 \<or> level \<ge> int (length level_strings) then ''UNKNOWN''
      else level_strings ! nat level)"

section \<open>What a call does to the outside\<close>

text \<open>
  A call of \<open>log_log\<close> is observed through the sequence of things it does: the calls of
  the lock hook, the first touch of each guarded part of \<open>L\<close> (the quiet flag, the global
  level, a registry slot), the reading of the clock, the calls of the console renderer and
  of the sinks (with the slot the sink sits in and the event as handed over), and the
  lines the built-in renderers print.
\<close>

datatype shared = Quiet | Level | Slot nat

text \<open>
  What a built-in renderer hands to \<open>strftime\<close> and \<open>fprintf\<close>: the stream, the time
  format and the time, the colour (console, with \<open>LOG_USE_COLOR\<close>), the level name, the
  file, the line and the message template.
\<close>

record rendered =
  r_stream :: ptr
  r_time_fmt :: string
  r_time :: tm
  r_color :: "string option"
  r_name :: string
  r_file :: string
  r_line :: int
  r_fmt :: string

datatype effect =
    LockHook nat bool ptr
  | Read shared
  | TimeRead
  | Console log_Event
  | Sink nat fnptr log_Event
  | Output rendered

text \<open>
  The running call: the local \<open>ev\<close>, how often the clock has been read, what has
  happened so far, and the fault that stopped it, if one did.
\<close>

record exec =
  x_ev :: log_Event
  x_ticks :: nat
  x_trace :: "effect list"
  x_fault :: "fault option"

definition emit :: "effect \<Rightarrow> exec \<Rightarrow> exec" where
  "emit e x = x\<lparr>x_trace := x_trace x @ [e]\<rparr>"

section \<open>The built-in renderers\<close>

text \<open>
  \<open>stdout_callback\<close> and \<open>file_callback\<close> index \<open>level_strings\<close> (and \<open>level_colors\<close>)
  with \<open>ev->level\<close> as it comes, and read \<open>ev->time\<close>. The first argument of
  \<open>stdout_callback\<close> says whether \<open>LOG_USE_COLOR\<close> is defined.
\<close>

definition stdout_callback :: "bool \<Rightarrow> log_Event \<Rightarrow> fault + effect list" where
  "stdout_callback use_color ev =
     (case ev_time ev of
        None \<Rightarrow> Inl NullDeref
      | Some t \<Rightarrow>
          (if use_color then
             (case index_table level_colors (ev_level ev) of
                Inl e \<Rightarrow> Inl e
              | Inr c \<Rightarrow>
                  (case index_table level_strings (ev_level ev) of
                     Inl e \<Rightarrow> Inl e
                   | Inr s \<Rightarrow>
                       Inr [Output \<lparr>r_stream = ev_udata ev, r_time_fmt = ''%H:%M:%S'',
                              r_time = t, r_color = Some c, r_name = s,
                              r_file = ev_file ev, r_line = ev_line ev,
                              r_fmt = ev_fmt ev\<rparr>]))
           else
             (case index_table level_strings (ev_level ev) of
                Inl e \<Rightarrow> Inl e
              | Inr s \<Rightarrow>
                  Inr [Output \<lparr>r_stream = ev_udata ev, r_time_fmt = ''%H:%M:%S'',
                         r_time = t, r_color = None, r_name = s,
                         r_file = ev_file ev, r_line = ev_line ev,
                         r_fmt = ev_fmt ev\<rparr>])))"

definition file_callback :: "log_Event \<Rightarrow> fault + effect list" where
  "file_callback ev =
     (case ev_time ev of
        None \<Rightarrow> Inl NullDeref
      | Some t \<Rightarrow>
          (case index_table level_strings (ev_level ev) of
             Inl e \<Rightarrow> Inl e
           | Inr s \<Rightarrow>
               Inr [Output \<lparr>r_stream = ev_udata ev, r_time_fmt = ''%Y-%m-%d %H:%M:%S'',
                      r_time = t, r_color = None, r_name = s,
                      r_file = ev_file ev, r_line = ev_line ev,
                      r_fmt = ev_fmt ev\<rparr>]))"

text \<open>
  \<open>cb->fn(&ev)\<close>: the built-in renderer runs; application code is outside the program and
  is taken to return, leaving the event and \<open>L\<close> as they are.
\<close>

fun call_fn :: "fnptr \<Rightarrow> log_Event \<Rightarrow> fault + effect list" where
  "call_fn File_callback ev = file_callback ev"
| "call_fn (User_fn k) ev = Inr []"

definition run_callee :: "fault + effect list \<Rightarrow> exec \<Rightarrow> exec" where
  "run_callee r x =
     (case r of
        Inl e \<Rightarrow> x\<lparr>x_fault := Some e\<rparr>
      | Inr es \<Rightarrow> x\<lparr>x_trace := x_trace x @ es\<rparr>)"

section \<open>\<open>lock\<close>, \<open>unlock\<close> and the setters\<close>

definition lock :: "logger \<Rightarrow> exec \<Rightarrow> exec" where
  "lock L x =
     (case L_lock L of None \<Rightarrow> x | Some h \<Rightarrow> emit (LockHook h True (L_udata L)) x)"

definition unlock :: "logger \<Rightarrow> exec \<Rightarrow> exec" where
  "unlock L x =
     (case L_lock L of None \<Rightarrow> x | Some h \<Rightarrow> emit (LockHook h False (L_udata L)) x)"

definition log_set_lock :: "log_LockFn \<Rightarrow> ptr \<Rightarrow> logger \<Rightarrow> logger" where
  "log_set_lock fn udata L = L\<lparr>L_lock := fn, L_udata := udata\<rparr>"

definition log_set_level :: "int \<Rightarrow> logger \<Rightarrow> logger" where
  "log_set_level level L = L\<lparr>L_level := level\<rparr>"

definition log_set_quiet :: "bool \<Rightarrow> logger \<Rightarrow> logger" where
  "log_set_quiet enable L = L\<lparr>L_quiet := enable\<rparr>"

section \<open>\<open>log_add_callback\<close> and \<open>log_add_fp\<close>\<close>

text \<open>The \<open>for\<close> loop of \<open>log_add_callback\<close>, entered at index \<open>i\<close>.\<close>

function log_add_callback_from ::
  "nat \<Rightarrow> log_LogFn \<Rightarrow> ptr \<Rightarrow> int \<Rightarrow> logger \<Rightarrow> int \<times> logger" where
  "log_add_callback_from i fn udata level L =
     (if i < MAX_CALLBACKS then
        (if cb_fn (L_callbacks L ! i) = None then
           (0, L\<lparr>L_callbacks :=
                  (L_callbacks L)[i := \<lparr>cb_fn = fn, cb_udata = udata, cb_level = level\<rparr>]\<rparr>)
         else log_add_callback_from (Suc i) fn udata level L)
      else (- 1, L))"
  by pat_completeness auto
termination
  by (relation "measure (\<lambda>(i, fn, udata, level, L). MAX_CALLBACKS - i)") auto

declare log_add_callback_from.simps [simp del]

definition log_add_callback :: "log_LogFn \<Rightarrow> ptr \<Rightarrow> int \<Rightarrow> logger \<Rightarrow> int \<times> logger" where
  "log_add_callback fn udata level L = log_add_callback_from 0 fn udata level L"

definition log_add_fp :: "ptr \<Rightarrow> int \<Rightarrow> logger \<Rightarrow> int \<times> logger" where
  "log_add_fp fp level L = log_add_callback (Some File_callback) fp level L"

section \<open>\<open>init_event\<close> and \<open>log_log\<close>\<close>

text \<open>
  The clock is the environment's: \<open>clk k\<close> is what \<open>localtime\<close> answers to the \<open>k\<close>-th
  reading made during the call.
\<close>

definition init_event :: "(nat \<Rightarrow> tm) \<Rightarrow> ptr \<Rightarrow> exec \<Rightarrow> exec" where
  "init_event clk udata x =
     (let x1 =
        (if ev_time (x_ev x) = None then
           (emit TimeRead x)\<lparr>x_ev := (x_ev x)\<lparr>ev_time := Some (clk (x_ticks x))\<rparr>,
                              x_ticks := Suc (x_ticks x)\<rparr>
         else x)
      in x1\<lparr>x_ev := (x_ev x1)\<lparr>ev_udata := udata\<rparr>\<rparr>)"

text \<open>
  The body of \<open>if (level >= cb->level)\<close>: \<open>init_event\<close>, then the call through the
  slot's function pointer.
\<close>

definition log_log_sink :: "(nat \<Rightarrow> tm) \<Rightarrow> nat \<Rightarrow> fnptr \<Rightarrow> Callback \<Rightarrow> exec \<Rightarrow> exec" where
  "log_log_sink clk i f cb x =
     (let x1 = init_event clk (cb_udata cb) x
      in run_callee (call_fn f (x_ev x1)) (emit (Sink i f (x_ev x1)) x1))"

text \<open>The \<open>for\<close> loop of \<open>log_log\<close> over the registry, entered at index \<open>i\<close>.\<close>

function log_log_from ::
  "nat \<Rightarrow> (nat \<Rightarrow> tm) \<Rightarrow> logger \<Rightarrow> int \<Rightarrow> exec \<Rightarrow> exec" where
  "log_log_from i clk L level x =
     (if i < MAX_CALLBACKS then
        (let x1 = emit (Read (Slot i)) x; cb = L_callbacks L ! i in
         case cb_fn cb of
           None \<Rightarrow> x1
         | Some f \<Rightarrow>
             (if level \<ge> cb_level cb then
                (let x2 = log_log_sink clk i f cb x1
                 in if x_fault x2 = None then log_log_from (Suc i) clk L level x2 else x2)
              else log_log_from (Suc i) clk L level x1))
      else x)"
  by pat_completeness auto
termination
  by (relation "measure (\<lambda>(i, clk, L, level, x). MAX_CALLBACKS - i)") auto

declare log_log_from.simps [simp del]

text \<open>The \<open>if\<close> block of \<open>log_log\<close> that serves the console.\<close>

definition log_log_console :: "bool \<Rightarrow> (nat \<Rightarrow> tm) \<Rightarrow> logger \<Rightarrow> int \<Rightarrow> exec \<Rightarrow> exec" where
  "log_log_console use_color clk L level x =
     (let x1 = emit (Read Quiet) x in
      if L_quiet L then x1
      else
        (let x2 = emit (Read Level) x1 in
         if level \<ge> L_level L then
           (let x3 = init_event clk Stderr x2
            in run_callee (stdout_callback use_color (x_ev x3)) (emit (Console (x_ev x3)) x3))
         else x2))"

definition log_log ::
  "bool \<Rightarrow> (nat \<Rightarrow> tm) \<Rightarrow> logger \<Rightarrow> int \<Rightarrow> string \<Rightarrow> int \<Rightarrow> string \<Rightarrow> exec" where
  "log_log use_color clk L level file line fmt =
     (let x0 = \<lparr>x_ev = \<lparr>ev_fmt = fmt, ev_file = file, ev_time = None, ev_udata = NULL,
                         ev_line = line, ev_level = level\<rparr>,
                x_ticks = 0, x_trace = [], x_fault = None\<rparr>;
          x1 = lock L x0;
          x2 = log_log_console use_color clk L level x1
      in if x_fault x2 = None then
           (let x3 = log_log_from 0 clk L level x2
            in if x_fault x3 = None then unlock L x3 else x3)
         else x2)"

section \<open>Reading a trace\<close>

fun is_console :: "effect \<Rightarrow> bool" where
  "is_console (Console ev) = True"
| "is_console e = False"

fun is_lock :: "effect \<Rightarrow> bool" where
  "is_lock (LockHook h b u) = True"
| "is_lock e = False"

text \<open>The sink calls of a trace, in order: slot, function called, and the data pointer
  the event carried.\<close>

fun sink_calls :: "effect list \<Rightarrow> (nat \<times> fnptr \<times> ptr) list" where
  "sink_calls [] = []"
| "sink_calls (Sink i f ev # es) = (i, f, ev_udata ev) # sink_calls es"
| "sink_calls (e # es) = sink_calls es"

text \<open>The events handed to the console renderer and to the sinks, in order.\<close>

fun events_seen :: "effect list \<Rightarrow> log_Event list" where
  "events_seen [] = []"
| "events_seen (Console ev # es) = ev # events_seen es"
| "events_seen (Sink i f ev # es) = ev # events_seen es"
| "events_seen (e # es) = events_seen es"

text \<open>The slots of the registry a trace touches, in order.\<close>

fun slots_read :: "effect list \<Rightarrow> nat list" where
  "slots_read [] = []"
| "slots_read (Read (Slot i) # es) = i # slots_read es"
| "slots_read (e # es) = slots_read es"

section \<open>The dispatcher as the specification words it\<close>

text \<open>
  Section 4.3, step 4, of the specification: for every registered sink, in registration
  order, while the slot is occupied, the callback is invoked if the event's level is
  at or above the sink's minimum level. \<open>spec_dispatch level i cbs\<close> lists the sinks to
  invoke (slot, function, data pointer) for the slots \<open>cbs\<close>, the first of which has index
  \<open>i\<close>. It is compared with \<open>sink_calls\<close> of what \<open>log_log\<close> does.
\<close>

fun spec_dispatch :: "int \<Rightarrow> nat \<Rightarrow> Callback list \<Rightarrow> (nat \<times> fnptr \<times> ptr) list" where
  "spec_dispatch level i [] = []"
| "spec_dispatch level i (cb # cbs) =
     (case cb_fn cb of
        None \<Rightarrow> []
      | Some f \<Rightarrow>
          (if level \<ge> cb_level cb then [(i, f, cb_udata cb)] else [])
          @ spec_dispatch level (Suc i) cbs)"

section \<open>Auxiliary notions\<close>

text \<open>A slot is occupied when its function pointer is not null.\<close>

definition occupied :: "Callback \<Rightarrow> bool" where
  "occupied cb = (cb_fn cb \<noteq> None)"

text \<open>The index of the first unused slot at or after \<open>i\<close>, or the length of the array when
  there is none.\<close>

definition first_unused :: "nat \<Rightarrow> Callback list \<Rightarrow> nat" where
  "first_unused i cbs = i + length (takeWhile occupied (drop i cbs))"

text \<open>The compound literal \<open>(Callback) { fn, udata, level }\<close>.\<close>

definition entry :: "log_LogFn \<Rightarrow> ptr \<Rightarrow> int \<Rightarrow> Callback" where
  "entry fn udata level = \<lparr>cb_fn = fn, cb_udata = udata, cb_level = level\<rparr>"

text \<open>
  The layout of the registry: the occupied entries \<open>es\<close> from index 0, then unused slots
  only.
\<close>

definition layout :: "logger \<Rightarrow> Callback list \<Rightarrow> bool" where
  "layout L es = (wf_logger L \<and> list_all occupied es \<and>
     (\<exists>rest. L_callbacks L = es @ rest \<and> list_all (\<lambda>cb. \<not> occupied cb) rest))"

text \<open>The effects the registry loop of \<open>log_log\<close> can have.\<close>

fun loop_effect :: "effect \<Rightarrow> bool" where
  "loop_effect (Read (Slot i)) = True"
| "loop_effect TimeRead = True"
| "loop_effect (Sink i f ev) = True"
| "loop_effect (Output r) = True"
| "loop_effect e = False"

text \<open>The event the console renderer is given when \<open>log_log_console\<close> starts in \<open>x\<close>.\<close>

definition console_event :: "(nat \<Rightarrow> tm) \<Rightarrow> exec \<Rightarrow> log_Event" where
  "console_event clk x = x_ev (init_event clk Stderr (emit (Read Level) (emit (Read Quiet) x)))"

text \<open>The state in which \<open>log_log\<close> enters the registry loop.\<close>

definition at_loop ::
  "bool \<Rightarrow> (nat \<Rightarrow> tm) \<Rightarrow> logger \<Rightarrow> int \<Rightarrow> string \<Rightarrow> int \<Rightarrow> string \<Rightarrow> exec" where
  "at_loop c clk L lv file line fmt =
     log_log_console c clk L lv
       (lock L \<lparr>x_ev = \<lparr>ev_fmt = fmt, ev_file = file, ev_time = None, ev_udata = NULL,
                         ev_line = line, ev_level = lv\<rparr>,
                x_ticks = 0, x_trace = [], x_fault = None\<rparr>)"

text \<open>
  The invariant of the lazy timestamp: as long as \<open>ev.time\<close> is null the clock has not
  been read and nothing has been invoked; once it is set, it holds the first reading,
  the clock has been read once, and every event handed out carries that reading.
\<close>

definition time_once :: "(nat \<Rightarrow> tm) \<Rightarrow> exec \<Rightarrow> bool" where
  "time_once clk x =
     (case ev_time (x_ev x) of
        None \<Rightarrow> x_ticks x = 0 \<and> count_list (x_trace x) TimeRead = 0 \<and>
                events_seen (x_trace x) = []
      | Some t \<Rightarrow> t = clk 0 \<and> count_list (x_trace x) TimeRead = 1 \<and>
                events_seen (x_trace x) \<noteq> [] \<and>
                list_all (\<lambda>ev. ev_time ev = Some (clk 0)) (events_seen (x_trace x)) \<and>
                events_seen (takeWhile (\<lambda>e. e \<noteq> TimeRead) (x_trace x)) = [])"

text \<open>
  A small configuration for the examples: a user sink at level 1 in slot 0, a file sink
  at level 3 in slot 1, a lock hook, and a clock that starts at 100.
\<close>

definition demo_L :: logger where
  "demo_L = log_set_lock (Some 5) (Addr 9)
     (snd (log_add_fp (Addr 2) 3 (snd (log_add_callback (Some (User_fn 7)) (Addr 1) 1 L_init))))"

definition demo_clk :: "nat \<Rightarrow> tm" where
  "demo_clk k = 100 + k"

section \<open>Sequences of registrations\<close>

text \<open>
  The two registration entry points as one type of calls. \<open>run_calls\<close> makes the calls in
  order and keeps every return code.
\<close>

datatype api_call = Add_callback log_LogFn ptr int | Add_fp ptr int

fun do_call :: "api_call \<Rightarrow> logger \<Rightarrow> int \<times> logger" where
  "do_call (Add_callback fn udata level) L = log_add_callback fn udata level L"
| "do_call (Add_fp fp level) L = log_add_fp fp level L"

fun run_calls :: "api_call list \<Rightarrow> logger \<Rightarrow> int list \<times> logger" where
  "run_calls [] L = ([], L)"
| "run_calls (c # cs) L =
     (case do_call c L of (r, L1) \<Rightarrow>
        (case run_calls cs L1 of (rs, L2) \<Rightarrow> (r # rs, L2)))"

text \<open>The entry a call asks the registry to store.\<close>

fun requested :: "api_call \<Rightarrow> Callback" where
  "requested (Add_callback fn udata level) = entry fn udata level"
| "requested (Add_fp fp level) = entry (Some File_callback) fp level"

text \<open>
  The scenario of the specification: global level WARN, console on, one capturing sink
  at DEBUG.
\<close>

definition demo_warn :: logger where
  "demo_warn = log_set_level 3 (snd (log_add_callback (Some (User_fn 7)) (Addr 1) 1 L_init))"

text \<open>Three registrations, the second with a null callback.\<close>

definition demo_calls :: "api_call list" where
  "demo_calls = [Add_callback (Some (User_fn 1)) (Addr 1) 0, Add_callback None (Addr 2) 0,
     Add_fp (Addr 3) 2]"

text \<open>Thirty-two registrations of application sinks.\<close>

definition demo_full :: "api_call list" where
  "demo_full = map (\<lambda>k. Add_callback (Some (User_fn k)) (Addr k) 0) [0 ..< 32]"

text \<open>\<open>demo_L\<close> after a registration with a null callback.\<close>

definition demo_null :: logger where
  "demo_null = demo_L\<lparr>L_callbacks := (L_callbacks demo_L)[2 := entry None (Addr 4) 0]\<rparr>"

section \<open>Steps of the model\<close>

lemma emit_simps [simp]:
  "x_trace (emit e x) = x_trace x @ [e]"
  "x_fault (emit e x) = x_fault x"
  "x_ev (emit e x) = x_ev x"
  "x_ticks (emit e x) = x_ticks x"
  by (simp_all add: emit_def)

lemma init_event_simps [simp]:
  "x_fault (init_event clk u x) = x_fault x"
  "ev_udata (x_ev (init_event clk u x)) = u"
  "ev_level (x_ev (init_event clk u x)) = ev_level (x_ev x)"
  "x_trace (init_event clk u x) =
     x_trace x @ (if ev_time (x_ev x) = None then [TimeRead] else [])"
  "ev_time (x_ev (init_event clk u x)) =
     (case ev_time (x_ev x) of None \<Rightarrow> Some (clk (x_ticks x)) | Some t \<Rightarrow> Some t)"
  "x_ticks (init_event clk u x) =
     (if ev_time (x_ev x) = None then Suc (x_ticks x) else x_ticks x)"
  by (auto simp: init_event_def Let_def)

lemma run_callee_simps [simp]:
  "x_ev (run_callee r x) = x_ev x"
  "x_ticks (run_callee r x) = x_ticks x"
  "x_trace (run_callee (Inr es) x) = x_trace x @ es"
  "x_fault (run_callee (Inr es) x) = x_fault x"
  "x_trace (run_callee (Inl e) x) = x_trace x"
  "x_fault (run_callee (Inl e) x) = Some e"
  by (simp_all add: run_callee_def split: sum.splits)

lemma index_table_level:
  "is_level l \<Longrightarrow> length t = 6 \<Longrightarrow> index_table t l = Inr (t ! nat l)"
  by (simp add: index_table_def is_level_def)

lemma file_callback_ok:
  "is_level (ev_level ev) \<Longrightarrow> ev_time ev = Some t \<Longrightarrow>
   \<exists>r. file_callback ev = Inr [Output r]"
  by (simp add: file_callback_def index_table_level level_strings_def)

lemma stdout_callback_ok:
  "is_level (ev_level ev) \<Longrightarrow> ev_time ev = Some t \<Longrightarrow>
   \<exists>r. stdout_callback c ev = Inr [Output r]"
  by (simp add: stdout_callback_def index_table_level level_strings_def level_colors_def)

lemma call_fn_ok:
  "is_level (ev_level ev) \<Longrightarrow> ev_time ev = Some t \<Longrightarrow>
   call_fn f ev = Inr [] \<or> (\<exists>r. call_fn f ev = Inr [Output r])"
  by (cases f) (auto dest: file_callback_ok)

lemma call_fn_cases:
  "(\<exists>e. call_fn f ev = Inl e) \<or> call_fn f ev = Inr [] \<or> (\<exists>r. call_fn f ev = Inr [Output r])"
  by (cases f) (auto simp: file_callback_def split: option.splits sum.splits)

lemma sink_calls_append [simp]: "sink_calls (a @ b) = sink_calls a @ sink_calls b"
  by (induction a rule: sink_calls.induct) auto

lemma events_seen_append [simp]: "events_seen (a @ b) = events_seen a @ events_seen b"
  by (induction a rule: events_seen.induct) auto

lemma loop_stop: "\<not> i < MAX_CALLBACKS \<Longrightarrow> log_log_from i clk L lv x = x"
  by (subst log_log_from.simps) simp

lemma loop_empty:
  "i < MAX_CALLBACKS \<Longrightarrow> cb_fn (L_callbacks L ! i) = None \<Longrightarrow>
   log_log_from i clk L lv x = emit (Read (Slot i)) x"
  by (subst log_log_from.simps) (simp add: Let_def)

lemma loop_skip:
  "i < MAX_CALLBACKS \<Longrightarrow> cb_fn (L_callbacks L ! i) = Some f \<Longrightarrow>
   \<not> cb_level (L_callbacks L ! i) \<le> lv \<Longrightarrow>
   log_log_from i clk L lv x = log_log_from (Suc i) clk L lv (emit (Read (Slot i)) x)"
  by (subst log_log_from.simps) (simp add: Let_def)

lemma loop_call:
  "i < MAX_CALLBACKS \<Longrightarrow> cb_fn (L_callbacks L ! i) = Some f \<Longrightarrow>
   cb_level (L_callbacks L ! i) \<le> lv \<Longrightarrow>
   log_log_from i clk L lv x =
     (if x_fault (log_log_sink clk i f (L_callbacks L ! i) (emit (Read (Slot i)) x)) = None
      then log_log_from (Suc i) clk L lv
             (log_log_sink clk i f (L_callbacks L ! i) (emit (Read (Slot i)) x))
      else log_log_sink clk i f (L_callbacks L ! i) (emit (Read (Slot i)) x))"
  by (subst log_log_from.simps) (simp add: Let_def)

lemma loop_induct [case_names stop empty skip call]:
  fixes L :: logger and P :: "nat \<Rightarrow> exec \<Rightarrow> bool"
  assumes "\<And>i x. \<not> i < MAX_CALLBACKS \<Longrightarrow> P i x"
    and "\<And>i x. i < MAX_CALLBACKS \<Longrightarrow> cb_fn (L_callbacks L ! i) = None \<Longrightarrow> P i x"
    and "\<And>i x f. i < MAX_CALLBACKS \<Longrightarrow> cb_fn (L_callbacks L ! i) = Some f \<Longrightarrow>
           \<not> cb_level (L_callbacks L ! i) \<le> lv \<Longrightarrow>
           P (Suc i) (emit (Read (Slot i)) x) \<Longrightarrow> P i x"
    and "\<And>i x f. i < MAX_CALLBACKS \<Longrightarrow> cb_fn (L_callbacks L ! i) = Some f \<Longrightarrow>
           cb_level (L_callbacks L ! i) \<le> lv \<Longrightarrow>
           (x_fault (log_log_sink clk i f (L_callbacks L ! i) (emit (Read (Slot i)) x)) = None \<Longrightarrow>
            P (Suc i) (log_log_sink clk i f (L_callbacks L ! i) (emit (Read (Slot i)) x))) \<Longrightarrow>
           P i x"
  shows "P i x"
proof (induction "MAX_CALLBACKS - i" arbitrary: i x)
  case 0
  then have "\<not> i < MAX_CALLBACKS" by simp
  then show ?case by (rule assms(1))
next
  case (Suc n)
  then have lt: "i < MAX_CALLBACKS" and n: "n = MAX_CALLBACKS - Suc i" by simp_all
  show ?case
  proof (cases "cb_fn (L_callbacks L ! i)")
    case None
    with lt show ?thesis by (rule assms(2))
  next
    case (Some f)
    show ?thesis
    proof (cases "cb_level (L_callbacks L ! i) \<le> lv")
      case False
      show ?thesis by (rule assms(3)[OF lt Some False]) (rule Suc(1)[OF n])
    next
      case True
      show ?thesis by (rule assms(4)[OF lt Some True]) (rule Suc(1)[OF n])
    qed
  qed
qed

lemma sink_fault_or_trace:
  "x_ev (log_log_sink clk i f cb x) = (x_ev (init_event clk (cb_udata cb) x))"
  "x_ticks (log_log_sink clk i f cb x) = x_ticks (init_event clk (cb_udata cb) x)"
  by (simp_all add: log_log_sink_def Let_def)

lemma sink_trace:
  "\<exists>outs. x_trace (log_log_sink clk i f cb x) =
     x_trace x @ (if ev_time (x_ev x) = None then [TimeRead] else [])
       @ [Sink i f (x_ev (init_event clk (cb_udata cb) x))] @ outs
     \<and> (outs = [] \<or> (\<exists>r. outs = [Output r]))"
  using call_fn_cases[of f "x_ev (init_event clk (cb_udata cb) x)"]
  by (auto simp: log_log_sink_def Let_def)

lemma sink_no_fault:
  "is_level (ev_level (x_ev x)) \<Longrightarrow> x_fault x = None \<Longrightarrow>
   x_fault (log_log_sink clk i f cb x) = None"
proof -
  assume a: "is_level (ev_level (x_ev x))" "x_fault x = None"
  let ?x1 = "init_event clk (cb_udata cb) x"
  have lv: "is_level (ev_level (x_ev ?x1))" using a by simp
  obtain t where t: "ev_time (x_ev ?x1) = Some t" by (cases "ev_time (x_ev x)") auto
  from call_fn_ok[OF lv t, of f] show ?thesis using a
    by (auto simp: log_log_sink_def Let_def)
qed

lemma loop_ev_level:
  "ev_level (x_ev (log_log_from i clk L lv x)) = ev_level (x_ev x)"
  by (induction i x rule: loop_induct[where L = L and lv = lv and clk = clk])
     (simp_all add: loop_stop loop_empty loop_skip loop_call sink_fault_or_trace)

lemma loop_no_fault:
  "is_level (ev_level (x_ev x)) \<Longrightarrow> x_fault x = None \<Longrightarrow>
   x_fault (log_log_from i clk L lv x) = None"
  by (induction i x rule: loop_induct[where L = L and lv = lv and clk = clk])
     (simp_all add: loop_stop loop_empty loop_skip loop_call sink_fault_or_trace sink_no_fault)

lemma loop_appends:
  "\<exists>s. x_trace (log_log_from i clk L lv x) = x_trace x @ s \<and> list_all loop_effect s"
proof (induction i x rule: loop_induct[where L = L and lv = lv and clk = clk])
  case (stop i x)
  then show ?case by (simp add: loop_stop)
next
  case (empty i x)
  then show ?case by (simp add: loop_empty)
next
  case (skip i x f)
  then show ?case by (auto simp: loop_skip)
next
  case (call i x f)
  let ?x2 = "log_log_sink clk i f (L_callbacks L ! i) (emit (Read (Slot i)) x)"
  from sink_trace[of clk i f "L_callbacks L ! i" "emit (Read (Slot i)) x"]
  obtain s0 where s0: "x_trace ?x2 = x_trace x @ s0" "list_all loop_effect s0"
    by auto
  show ?case
  proof (cases "x_fault ?x2 = None")
    case True
    from call(4)[OF True] obtain s where
      "x_trace (log_log_from (Suc i) clk L lv ?x2) = x_trace ?x2 @ s" "list_all loop_effect s"
      by blast
    with s0 have "x_trace (log_log_from (Suc i) clk L lv ?x2) = x_trace x @ (s0 @ s)"
      "list_all loop_effect (s0 @ s)" by simp_all
    then show ?thesis using call(1-3) True unfolding loop_call[OF call(1-3)] by metis
  next
    case False
    then show ?thesis using s0 unfolding loop_call[OF call(1-3)] by auto
  qed
qed

lemma sink_sink_calls:
  "sink_calls (x_trace (log_log_sink clk i f cb x)) =
     sink_calls (x_trace x) @ [(i, f, cb_udata cb)]"
  using sink_trace[of clk i f cb x] by auto

lemma drop_slot:
  "wf_logger L \<Longrightarrow> i < MAX_CALLBACKS \<Longrightarrow>
   drop i (L_callbacks L) = L_callbacks L ! i # drop (Suc i) (L_callbacks L)"
  by (simp add: wf_logger_def Cons_nth_drop_Suc)

lemma drop_end:
  "wf_logger L \<Longrightarrow> \<not> i < MAX_CALLBACKS \<Longrightarrow> drop i (L_callbacks L) = []"
  by (simp add: wf_logger_def)

lemma loop_sink_calls:
  "wf_logger L \<Longrightarrow> x_fault (log_log_from i clk L lv x) = None \<Longrightarrow>
   sink_calls (x_trace (log_log_from i clk L lv x)) =
     sink_calls (x_trace x) @ spec_dispatch lv i (drop i (L_callbacks L))"
proof (induction i x rule: loop_induct[where L = L and lv = lv and clk = clk])
  case (stop i x)
  then show ?case by (simp add: loop_stop drop_end)
next
  case (empty i x)
  then show ?case by (simp add: loop_empty drop_slot)
next
  case (skip i x f)
  then show ?case by (simp add: loop_skip drop_slot)
next
  case (call i x f)
  then show ?case
    by (simp add: loop_call drop_slot sink_sink_calls split: if_splits)
qed

lemma loop_sink_calls_prefix:
  "wf_logger L \<Longrightarrow>
   prefix (sink_calls (x_trace (log_log_from i clk L lv x)))
     (sink_calls (x_trace x) @ spec_dispatch lv i (drop i (L_callbacks L)))"
proof (induction i x rule: loop_induct[where L = L and lv = lv and clk = clk])
  case (stop i x)
  then show ?case by (simp add: loop_stop drop_end)
next
  case (empty i x)
  then show ?case by (simp add: loop_empty drop_slot)
next
  case (skip i x f)
  then show ?case by (simp add: loop_skip drop_slot)
next
  case (call i x f)
  then show ?case
    by (simp add: loop_call drop_slot sink_sink_calls split: if_splits)
qed

lemma spec_dispatch_ge:
  "(j, f, u) \<in> set (spec_dispatch lv i cbs) \<Longrightarrow> i \<le> j"
proof (induction cbs arbitrary: i)
  case Nil
  then show ?case by simp
next
  case (Cons cb cbs)
  then show ?case by (fastforce split: option.splits if_splits)
qed

lemma all_le_Suc: "(\<forall>k \<le> Suc d. P k) \<longleftrightarrow> P 0 \<and> (\<forall>k \<le> d. P (Suc k))"
proof
  assume a: "\<forall>k \<le> Suc d. P k"
  then show "P 0 \<and> (\<forall>k \<le> d. P (Suc k))" by auto
next
  assume a: "P 0 \<and> (\<forall>k \<le> d. P (Suc k))"
  show "\<forall>k \<le> Suc d. P k"
  proof (intro allI impI)
    fix k assume "k \<le> Suc d"
    then show "P k" using a by (cases k) auto
  qed
qed

lemma spec_dispatch_mem_offset:
  "(i + d, f, u) \<in> set (spec_dispatch lv i cbs) \<longleftrightarrow>
     d < length cbs \<and> (\<forall>k \<le> d. cb_fn (cbs ! k) \<noteq> None) \<and>
     cb_fn (cbs ! d) = Some f \<and> cb_level (cbs ! d) \<le> lv \<and> u = cb_udata (cbs ! d)"
proof (induction cbs arbitrary: i d)
  case Nil
  then show ?case by simp
next
  case (Cons cb cbs)
  show ?case
  proof (cases d)
    case 0
    have "(i, f, u) \<notin> set (spec_dispatch lv (Suc i) cbs)"
      using spec_dispatch_ge[of i f u lv "Suc i" cbs] by auto
    then show ?thesis using 0 by (cases "cb_fn cb") auto
  next
    case (Suc d')
    have "(i + d, f, u) \<in> set (spec_dispatch lv i (cb # cbs)) \<longleftrightarrow>
          cb_fn cb \<noteq> None \<and> (Suc i + d', f, u) \<in> set (spec_dispatch lv (Suc i) cbs)"
      using Suc by (cases "cb_fn cb") auto
    then show ?thesis unfolding Cons[of "Suc i" d'] using Suc
      by (auto simp: all_le_Suc)
  qed
qed

lemma spec_dispatch_mem:
  "(j, f, u) \<in> set (spec_dispatch lv 0 cbs) \<longleftrightarrow>
     j < length cbs \<and> (\<forall>k \<le> j. cb_fn (cbs ! k) \<noteq> None) \<and>
     cb_fn (cbs ! j) = Some f \<and> cb_level (cbs ! j) \<le> lv \<and> u = cb_udata (cbs ! j)"
  using spec_dispatch_mem_offset[of 0 j f u lv cbs] by simp

lemma slots_read_append [simp]: "slots_read (a @ b) = slots_read a @ slots_read b"
  by (induction a rule: slots_read.induct) auto

lemma sink_slots_read:
  "slots_read (x_trace (log_log_sink clk i f cb x)) = slots_read (x_trace x)"
  using sink_trace[of clk i f cb x] by auto

lemma first_unused_step:
  "i < length cbs \<Longrightarrow> cb_fn (cbs ! i) = Some f \<Longrightarrow>
   first_unused i cbs = first_unused (Suc i) cbs"
  by (simp add: first_unused_def occupied_def Cons_nth_drop_Suc[symmetric])

lemma first_unused_here:
  "i < length cbs \<Longrightarrow> cb_fn (cbs ! i) = None \<Longrightarrow> first_unused i cbs = i"
  by (simp add: first_unused_def occupied_def Cons_nth_drop_Suc[symmetric])

lemma first_unused_ge: "i \<le> first_unused i cbs"
  by (simp add: first_unused_def)

lemma first_unused_le: "i \<le> length cbs \<Longrightarrow> first_unused i cbs \<le> length cbs"
proof -
  assume a: "i \<le> length cbs"
  have "length (takeWhile occupied (drop i cbs)) \<le> length (drop i cbs)"
    by (rule length_takeWhile_le)
  then show ?thesis using a by (simp add: first_unused_def)
qed

lemma loop_slots_read:
  "wf_logger L \<Longrightarrow> x_fault (log_log_from i clk L lv x) = None \<Longrightarrow>
   slots_read (x_trace (log_log_from i clk L lv x)) =
     slots_read (x_trace x) @ [i ..< min MAX_CALLBACKS (Suc (first_unused i (L_callbacks L)))]"
proof (induction i x rule: loop_induct[where L = L and lv = lv and clk = clk])
  case (stop i x)
  then show ?case by (simp add: loop_stop)
next
  case (empty i x)
  then show ?case by (simp add: loop_empty first_unused_here wf_logger_def)
next
  case (skip i x f)
  have len: "i < length (L_callbacks L)" using skip by (simp add: wf_logger_def)
  have fu: "first_unused i (L_callbacks L) = first_unused (Suc i) (L_callbacks L)"
    using len skip(2) by (rule first_unused_step)
  have "i < min MAX_CALLBACKS (Suc (first_unused (Suc i) (L_callbacks L)))"
    using first_unused_ge[of "Suc i" "L_callbacks L"] skip(1) by simp
  then have up: "[i ..< min MAX_CALLBACKS (Suc (first_unused (Suc i) (L_callbacks L)))] =
      i # [Suc i ..< min MAX_CALLBACKS (Suc (first_unused (Suc i) (L_callbacks L)))]"
    by (rule upt_conv_Cons)
  have eq: "log_log_from i clk L lv x = log_log_from (Suc i) clk L lv (emit (Read (Slot i)) x)"
    using skip(1-3) by (rule loop_skip)
  show ?case using skip(4)[OF skip(5)] skip(6) unfolding eq fu up by simp
next
  case (call i x f)
  let ?x2 = "log_log_sink clk i f (L_callbacks L ! i) (emit (Read (Slot i)) x)"
  have len: "i < length (L_callbacks L)" using call by (simp add: wf_logger_def)
  have fu: "first_unused i (L_callbacks L) = first_unused (Suc i) (L_callbacks L)"
    using len call(2) by (rule first_unused_step)
  have "i < min MAX_CALLBACKS (Suc (first_unused (Suc i) (L_callbacks L)))"
    using first_unused_ge[of "Suc i" "L_callbacks L"] call(1) by simp
  then have up: "[i ..< min MAX_CALLBACKS (Suc (first_unused (Suc i) (L_callbacks L)))] =
      i # [Suc i ..< min MAX_CALLBACKS (Suc (first_unused (Suc i) (L_callbacks L)))]"
    by (rule upt_conv_Cons)
  have nf: "x_fault ?x2 = None"
    using call(6) unfolding loop_call[OF call(1-3)] by (simp split: if_splits)
  have eq: "log_log_from i clk L lv x = log_log_from (Suc i) clk L lv ?x2"
    unfolding loop_call[OF call(1-3)] using nf by simp
  show ?case using call(4)[OF nf call(5)] call(6) unfolding eq fu up
    by (simp add: sink_slots_read)
qed

lemma loop_effect_filters:
  "list_all loop_effect s \<Longrightarrow> filter is_lock s = [] \<and> filter is_console s = []"
proof (induction s)
  case Nil
  then show ?case by simp
next
  case (Cons e s)
  then show ?case by (cases e rule: loop_effect.cases) auto
qed

lemma stdout_cases:
  "(\<exists>e. stdout_callback c ev = Inl e) \<or> (\<exists>r. stdout_callback c ev = Inr [Output r])"
  by (auto simp: stdout_callback_def split: option.splits sum.splits)

lemma console_trace:
  "\<exists>outs. x_trace (log_log_console c clk L lv x) =
     x_trace x @ Read Quiet #
       (if L_quiet L then []
        else Read Level #
          (if L_level L \<le> lv then
             (if ev_time (x_ev x) = None then [TimeRead] else [])
             @ Console (console_event clk x) # outs
           else []))
     \<and> (outs = [] \<or> (\<exists>r. outs = [Output r]))"
  using stdout_cases[of c "console_event clk x"]
  by (auto simp: log_log_console_def Let_def console_event_def)

lemma console_ev_level:
  "ev_level (x_ev (log_log_console c clk L lv x)) = ev_level (x_ev x)"
  by (simp add: log_log_console_def Let_def)

lemma console_no_fault:
  "is_level (ev_level (x_ev x)) \<Longrightarrow> x_fault x = None \<Longrightarrow>
   x_fault (log_log_console c clk L lv x) = None"
proof -
  assume a: "is_level (ev_level (x_ev x))" "x_fault x = None"
  let ?x3 = "init_event clk Stderr (emit (Read Level) (emit (Read Quiet) x))"
  have lv: "is_level (ev_level (x_ev ?x3))" using a by simp
  obtain t where t: "ev_time (x_ev ?x3) = Some t" by (cases "ev_time (x_ev x)") auto
  from stdout_callback_ok[OF lv t, of c] show ?thesis using a
    by (auto simp: log_log_console_def Let_def)
qed

lemma lock_simps [simp]:
  "x_ev (lock L x) = x_ev x" "x_fault (lock L x) = x_fault x" "x_ticks (lock L x) = x_ticks x"
  "x_trace (lock L x) = x_trace x @
     (case L_lock L of None \<Rightarrow> [] | Some h \<Rightarrow> [LockHook h True (L_udata L)])"
  by (simp_all add: lock_def split: option.splits)

lemma unlock_simps [simp]:
  "x_ev (unlock L x) = x_ev x" "x_fault (unlock L x) = x_fault x" "x_ticks (unlock L x) = x_ticks x"
  "x_trace (unlock L x) = x_trace x @
     (case L_lock L of None \<Rightarrow> [] | Some h \<Rightarrow> [LockHook h False (L_udata L)])"
  by (simp_all add: unlock_def split: option.splits)

lemma log_log_unfold:
  "log_log c clk L lv file line fmt =
     (if x_fault (at_loop c clk L lv file line fmt) = None then
        (if x_fault (log_log_from 0 clk L lv (at_loop c clk L lv file line fmt)) = None
         then unlock L (log_log_from 0 clk L lv (at_loop c clk L lv file line fmt))
         else log_log_from 0 clk L lv (at_loop c clk L lv file line fmt))
      else at_loop c clk L lv file line fmt)"
  by (simp add: log_log_def at_loop_def Let_def)

lemma at_loop_no_fault: "is_level lv \<Longrightarrow> x_fault (at_loop c clk L lv file line fmt) = None"
  by (simp add: at_loop_def console_no_fault)

lemma at_loop_ev_level: "ev_level (x_ev (at_loop c clk L lv file line fmt)) = lv"
  by (simp add: at_loop_def console_ev_level)

lemma log_log_no_fault: "is_level lv \<Longrightarrow> x_fault (log_log c clk L lv file line fmt) = None"
  by (simp add: log_log_unfold at_loop_no_fault loop_no_fault at_loop_ev_level)

lemma sink_calls_lock [simp]:
  "sink_calls (case l of None \<Rightarrow> [] | Some h \<Rightarrow> [LockHook h b u]) = []"
  by (cases l) auto

lemma slots_read_lock [simp]:
  "slots_read (case l of None \<Rightarrow> [] | Some h \<Rightarrow> [LockHook h b u]) = []"
  by (cases l) auto

lemma at_loop_sink_calls: "sink_calls (x_trace (at_loop c clk L lv file line fmt)) = []"
  unfolding at_loop_def
  using console_trace[of c clk L lv "lock L \<lparr>x_ev = \<lparr>ev_fmt = fmt, ev_file = file, ev_time = None, ev_udata = NULL,
                         ev_line = line, ev_level = lv\<rparr>,
                x_ticks = 0, x_trace = [], x_fault = None\<rparr>"]
  by auto

lemma at_loop_slots_read: "slots_read (x_trace (at_loop c clk L lv file line fmt)) = []"
  unfolding at_loop_def
  using console_trace[of c clk L lv "lock L \<lparr>x_ev = \<lparr>ev_fmt = fmt, ev_file = file, ev_time = None, ev_udata = NULL,
                         ev_line = line, ev_level = lv\<rparr>,
                x_ticks = 0, x_trace = [], x_fault = None\<rparr>"]
  by auto

lemma log_log_sink_calls:
  "wf_logger L \<Longrightarrow> x_fault (log_log c clk L lv file line fmt) = None \<Longrightarrow>
   sink_calls (x_trace (log_log c clk L lv file line fmt)) = spec_dispatch lv 0 (L_callbacks L)"
  by (simp add: log_log_unfold loop_sink_calls at_loop_sink_calls split: if_splits)

lemma log_log_sink_calls_prefix:
  "wf_logger L \<Longrightarrow>
   prefix (sink_calls (x_trace (log_log c clk L lv file line fmt)))
     (spec_dispatch lv 0 (L_callbacks L))"
  using loop_sink_calls_prefix[of L 0 clk lv "at_loop c clk L lv file line fmt"]
  by (simp add: log_log_unfold at_loop_sink_calls)

lemma log_log_slots_read:
  "wf_logger L \<Longrightarrow> x_fault (log_log c clk L lv file line fmt) = None \<Longrightarrow>
   slots_read (x_trace (log_log c clk L lv file line fmt)) =
     [0 ..< min MAX_CALLBACKS (Suc (first_unused 0 (L_callbacks L)))]"
  by (simp add: log_log_unfold loop_slots_read at_loop_slots_read split: if_splits)

lemma add_from_found:
  "i \<le> j \<Longrightarrow> j < MAX_CALLBACKS \<Longrightarrow> cb_fn (L_callbacks L ! j) = None \<Longrightarrow>
   (\<forall>k. i \<le> k \<and> k < j \<longrightarrow> cb_fn (L_callbacks L ! k) \<noteq> None) \<Longrightarrow>
   log_add_callback_from i fn u lv L =
     (0, L\<lparr>L_callbacks := (L_callbacks L)[j := entry fn u lv]\<rparr>)"
proof (induction "j - i" arbitrary: i)
  case 0
  then have "i = j" by simp
  then show ?case using 0 by (subst log_add_callback_from.simps) (simp add: entry_def)
next
  case (Suc n)
  then have lt: "i < j" by simp
  then have occ: "cb_fn (L_callbacks L ! i) \<noteq> None" using Suc(6) by simp
  have "log_add_callback_from (Suc i) fn u lv L =
     (0, L\<lparr>L_callbacks := (L_callbacks L)[j := entry fn u lv]\<rparr>)"
    using Suc lt by (intro Suc(1)) auto
  then show ?case using lt occ Suc(4)
    by (subst log_add_callback_from.simps) auto
qed

lemma add_from_full:
  "(\<forall>k. i \<le> k \<and> k < MAX_CALLBACKS \<longrightarrow> cb_fn (L_callbacks L ! k) \<noteq> None) \<Longrightarrow>
   log_add_callback_from i fn u lv L = (- 1, L)"
proof (induction "MAX_CALLBACKS - i" arbitrary: i)
  case 0
  then show ?case by (subst log_add_callback_from.simps) simp
next
  case (Suc n)
  then have lt: "i < MAX_CALLBACKS" by simp
  have "log_add_callback_from (Suc i) fn u lv L = (- 1, L)"
    using Suc by (intro Suc(1)) auto
  then show ?case using lt Suc(3)
    by (subst log_add_callback_from.simps) simp
qed

lemma first_unused_0: "first_unused 0 cbs = length (takeWhile occupied cbs)"
  by (simp add: first_unused_def)

lemma before_first_unused:
  "k < first_unused 0 cbs \<Longrightarrow> cb_fn (cbs ! k) \<noteq> None"
proof -
  assume a: "k < first_unused 0 cbs"
  then have "takeWhile occupied cbs ! k = cbs ! k"
    by (simp add: first_unused_0 takeWhile_nth)
  moreover have "occupied (takeWhile occupied cbs ! k)"
    using a by (metis first_unused_0 nth_mem set_takeWhileD)
  ultimately show ?thesis by (simp add: occupied_def)
qed

lemma at_first_unused:
  "first_unused 0 cbs < length cbs \<Longrightarrow> cb_fn (cbs ! first_unused 0 cbs) = None"
  using nth_length_takeWhile[of occupied cbs] by (simp add: first_unused_0 occupied_def)

lemma log_add_callback_eq:
  assumes "wf_logger L"
  shows "log_add_callback fn u lv L =
     (if first_unused 0 (L_callbacks L) < MAX_CALLBACKS
      then (0, L\<lparr>L_callbacks := (L_callbacks L)[first_unused 0 (L_callbacks L) := entry fn u lv]\<rparr>)
      else (- 1, L))"
proof (cases "first_unused 0 (L_callbacks L) < MAX_CALLBACKS")
  case True
  then have "cb_fn (L_callbacks L ! first_unused 0 (L_callbacks L)) = None"
    using assms at_first_unused by (simp add: wf_logger_def)
  then show ?thesis using True before_first_unused[of _ "L_callbacks L"]
    unfolding log_add_callback_def
    by (subst add_from_found[of 0 "first_unused 0 (L_callbacks L)"]) auto
next
  case False
  have "first_unused 0 (L_callbacks L) \<le> length (L_callbacks L)"
    by (rule first_unused_le) simp
  with False assms have "first_unused 0 (L_callbacks L) = MAX_CALLBACKS"
    by (simp add: wf_logger_def)
  then have "\<forall>k. 0 \<le> k \<and> k < MAX_CALLBACKS \<longrightarrow> cb_fn (L_callbacks L ! k) \<noteq> None"
    using before_first_unused[of _ "L_callbacks L"] by simp
  then show ?thesis using False unfolding log_add_callback_def
    by (subst add_from_full) auto
qed

lemma log_add_callback_wf:
  "wf_logger L \<Longrightarrow> wf_logger (snd (log_add_callback fn u lv L))"
  by (simp add: log_add_callback_eq) (simp add: wf_logger_def)

lemma L_init_wf: "wf_logger L_init"
  by (simp add: wf_logger_def L_init_def)

lemma takeWhile_layout:
  "list_all P es \<Longrightarrow> list_all (\<lambda>x. \<not> P x) rest \<Longrightarrow> takeWhile P (es @ rest) = es"
  by (cases rest) (auto simp: list_all_iff takeWhile_append2 )

lemma layout_takeWhile: "layout L es \<Longrightarrow> takeWhile occupied (L_callbacks L) = es"
  by (auto simp: layout_def takeWhile_layout)

lemma layout_first_unused: "layout L es \<Longrightarrow> first_unused 0 (L_callbacks L) = length es"
  by (simp add: first_unused_0 layout_takeWhile)

lemma layout_init: "layout L_init []"
  unfolding layout_def using L_init_wf
  by (simp add: L_init_def zero_Callback_def occupied_def list_all_iff)

lemma layout_add:
  assumes "layout L es"
  shows "layout (snd (log_add_callback fn u lv L))
           (take MAX_CALLBACKS (es @ filter occupied [entry fn u lv]))"
proof -
  from assms obtain rest where wf: "wf_logger L" and es: "list_all occupied es"
    and cbs: "L_callbacks L = es @ rest" and rest: "list_all (\<lambda>cb. \<not> occupied cb) rest"
    by (auto simp: layout_def)
  have fu: "first_unused 0 (L_callbacks L) = length es"
    using assms by (rule layout_first_unused)
  have len: "length es + length rest = MAX_CALLBACKS"
    using wf cbs by (simp add: wf_logger_def)
  show ?thesis
  proof (cases "length es < MAX_CALLBACKS")
    case False
    then have "length rest = 0" "length es = MAX_CALLBACKS" using len by arith+
    then have "rest = []" "length es = MAX_CALLBACKS" by simp_all
    then show ?thesis using assms wf fu by (simp add: log_add_callback_eq)
  next
    case True
    then obtain r rs where r: "rest = r # rs" using len by (cases rest) auto
    have new: "snd (log_add_callback fn u lv L) =
        L\<lparr>L_callbacks := es @ entry fn u lv # rs\<rparr>"
      using wf fu True cbs r by (simp add: log_add_callback_eq)
    show ?thesis
    proof (cases "occupied (entry fn u lv)")
      case occ: True
      have "layout (L\<lparr>L_callbacks := es @ entry fn u lv # rs\<rparr>) (es @ [entry fn u lv])"
        using wf es rest r cbs occ by (auto simp: layout_def wf_logger_def)
      then show ?thesis using new occ True by simp
    next
      case nocc: False
      have "layout (L\<lparr>L_callbacks := es @ entry fn u lv # rs\<rparr>) es"
        using wf es rest r cbs nocc by (auto simp: layout_def wf_logger_def)
      then show ?thesis using new nocc True by simp
    qed
  qed
qed

lemma count_list_append [simp]: "count_list (a @ b) e = count_list a e + count_list b e"
  by (induction a) auto

lemma takeWhile_until:
  "count_list a e = 1 \<Longrightarrow> takeWhile (\<lambda>y. y \<noteq> e) (a @ b) = takeWhile (\<lambda>y. y \<noteq> e) a"
proof -
  assume "count_list a e = 1"
  then have "e \<in> set a" by (metis count_list_0_iff zero_neq_one)
  then show ?thesis by (simp add: takeWhile_append1)
qed

lemma takeWhile_none:
  "count_list a e = 0 \<Longrightarrow> takeWhile (\<lambda>y. y \<noteq> e) (a @ e # b) = a"
proof -
  assume "count_list a e = 0"
  then have "e \<notin> set a" by (simp add: count_list_0_iff)
  then show ?thesis by (induction a) auto
qed

lemma takeWhile_absent:
  "count_list a e = 0 \<Longrightarrow> takeWhile (\<lambda>y. y \<noteq> e) a = a"
  by (induction a) (auto split: if_splits)

lemma time_once_read: "time_once clk x \<Longrightarrow> time_once clk (emit (Read s) x)"
  by (cases "ev_time (x_ev x)") (auto simp: time_once_def takeWhile_until)

lemma time_once_lock: "time_once clk x \<Longrightarrow> time_once clk (emit (LockHook h b u) x)"
  by (cases "ev_time (x_ev x)") (auto simp: time_once_def takeWhile_until)

lemma time_once_sink:
  assumes "time_once clk x"
  shows "time_once clk (log_log_sink clk i f cb x)"
proof -
  obtain outs where tr: "x_trace (log_log_sink clk i f cb x) =
     x_trace x @ (if ev_time (x_ev x) = None then [TimeRead] else [])
       @ [Sink i f (x_ev (init_event clk (cb_udata cb) x))] @ outs"
    and outs: "outs = [] \<or> (\<exists>r. outs = [Output r])"
    using sink_trace[of clk i f cb x] by blast
  show ?thesis
  proof (cases "ev_time (x_ev x)")
    case None
    then show ?thesis using assms outs
      by (auto simp: time_once_def tr sink_fault_or_trace takeWhile_none)
  next
    case (Some t)
    then show ?thesis using assms outs
      by (auto simp: time_once_def tr sink_fault_or_trace takeWhile_until)
  qed
qed

lemma time_once_console:
  assumes "time_once clk x"
  shows "time_once clk (log_log_console c clk L lv x)"
proof -
  obtain outs where tr: "x_trace (log_log_console c clk L lv x) =
     x_trace x @ Read Quiet #
       (if L_quiet L then []
        else Read Level #
          (if L_level L \<le> lv then
             (if ev_time (x_ev x) = None then [TimeRead] else [])
             @ Console (console_event clk x) # outs
           else []))"
    and outs: "outs = [] \<or> (\<exists>r. outs = [Output r])"
    using console_trace[of c clk L lv x] by blast
  have ev: "x_ev (log_log_console c clk L lv x) =
      (if \<not> L_quiet L \<and> L_level L \<le> lv then console_event clk x else x_ev x)"
    by (simp add: log_log_console_def Let_def console_event_def)
  have tk: "x_ticks (log_log_console c clk L lv x) =
      (if \<not> L_quiet L \<and> L_level L \<le> lv \<and> ev_time (x_ev x) = None then Suc (x_ticks x) else x_ticks x)"
    by (simp add: log_log_console_def Let_def)
  have a1: "takeWhile (\<lambda>e. e \<noteq> TimeRead) (x_trace x @ Read Quiet # Read Level # TimeRead # zs) =
        x_trace x @ [Read Quiet, Read Level]" if "count_list (x_trace x) TimeRead = 0" for zs
    using takeWhile_none[of "x_trace x @ [Read Quiet, Read Level]" TimeRead zs] that by simp
  show ?thesis
  proof (cases "ev_time (x_ev x)")
    case None
    then show ?thesis using assms outs
      by (auto simp: time_once_def tr ev tk console_event_def a1)
  next
    case (Some t)
    then show ?thesis using assms outs
      by (auto simp: time_once_def tr ev tk console_event_def takeWhile_until)
  qed
qed

lemma time_once_loop:
  "time_once clk x \<Longrightarrow> time_once clk (log_log_from i clk L lv x)"
  by (induction i x rule: loop_induct[where L = L and lv = lv and clk = clk])
     (simp_all add: loop_stop loop_empty loop_skip loop_call time_once_read time_once_sink)

lemma time_once_lock': "time_once clk x \<Longrightarrow> time_once clk (lock L x)"
  by (cases "L_lock L") (simp_all add: lock_def time_once_lock)

lemma time_once_unlock: "time_once clk x \<Longrightarrow> time_once clk (unlock L x)"
  by (cases "L_lock L") (simp_all add: unlock_def time_once_lock)

lemma time_once_log_log: "time_once clk (log_log c clk L lv file line fmt)"
proof -
  have "time_once clk (at_loop c clk L lv file line fmt)"
    unfolding at_loop_def
    by (intro time_once_console time_once_lock') (simp add: time_once_def)
  then show ?thesis
    by (simp add: log_log_unfold time_once_loop time_once_unlock)
qed

lemma at_loop_console_calls:
  "filter is_console (x_trace (at_loop c clk L lv file line fmt)) =
     (if \<not> L_quiet L \<and> L_level L \<le> lv
      then [Console \<lparr>ev_fmt = fmt, ev_file = file, ev_time = Some (clk 0), ev_udata = Stderr,
                      ev_line = line, ev_level = lv\<rparr>]
      else [])"
proof -
  let ?x0 = "lock L \<lparr>x_ev = \<lparr>ev_fmt = fmt, ev_file = file, ev_time = None, ev_udata = NULL,
                         ev_line = line, ev_level = lv\<rparr>,
                x_ticks = 0, x_trace = [], x_fault = None\<rparr>"
  have ev: "console_event clk ?x0 = \<lparr>ev_fmt = fmt, ev_file = file, ev_time = Some (clk 0),
      ev_udata = Stderr, ev_line = line, ev_level = lv\<rparr>"
    by (simp add: console_event_def init_event_def Let_def emit_def lock_def split: option.splits)
  show ?thesis
    unfolding at_loop_def using console_trace[of c clk L lv ?x0]
    by (cases "L_lock L") (auto simp: ev)
qed

lemma log_log_console_calls:
  "filter is_console (x_trace (log_log c clk L lv file line fmt)) =
     (if \<not> L_quiet L \<and> L_level L \<le> lv
      then [Console \<lparr>ev_fmt = fmt, ev_file = file, ev_time = Some (clk 0), ev_udata = Stderr,
                      ev_line = line, ev_level = lv\<rparr>]
      else [])"
proof -
  obtain s where s: "x_trace (log_log_from 0 clk L lv (at_loop c clk L lv file line fmt)) =
      x_trace (at_loop c clk L lv file line fmt) @ s" "list_all loop_effect s"
    using loop_appends by blast
  have "filter is_console s = []" using s(2) loop_effect_filters by blast
  then show ?thesis
    using at_loop_console_calls[of c clk L lv "file" line fmt] s(1)
    by (cases "L_lock L") (simp_all add: log_log_unfold)
qed

lemma registered_delivered:
  assumes "wf_logger L" and "is_level lv" and "j < first_unused 0 (L_callbacks L)"
    and "cb_level (L_callbacks L ! j) \<le> lv"
  shows "\<exists>f. cb_fn (L_callbacks L ! j) = Some f \<and>
     (j, f, cb_udata (L_callbacks L ! j)) \<in> set (sink_calls (x_trace (log_log c clk L lv file line fmt)))"
proof -
  have le: "first_unused 0 (L_callbacks L) \<le> length (L_callbacks L)"
    by (rule first_unused_le) simp
  have occ: "\<forall>k \<le> j. cb_fn (L_callbacks L ! k) \<noteq> None"
    using assms(3) before_first_unused[of _ "L_callbacks L"] by simp
  then obtain f where f: "cb_fn (L_callbacks L ! j) = Some f" by auto
  have "(j, f, cb_udata (L_callbacks L ! j)) \<in> set (spec_dispatch lv 0 (L_callbacks L))"
    unfolding spec_dispatch_mem using occ f assms(3,4) le by simp
  then show ?thesis
    using f log_log_sink_calls[OF assms(1) log_log_no_fault[OF assms(2)]] by simp
qed

lemma delivered_registered:
  assumes "wf_logger L"
    and "(j, f, u) \<in> set (sink_calls (x_trace (log_log c clk L lv file line fmt)))"
  shows "j < first_unused 0 (L_callbacks L) \<and> cb_fn (L_callbacks L ! j) = Some f \<and>
     cb_level (L_callbacks L ! j) \<le> lv \<and> u = cb_udata (L_callbacks L ! j)"
proof -
  have "(j, f, u) \<in> set (spec_dispatch lv 0 (L_callbacks L))"
    using log_log_sink_calls_prefix[OF assms(1), of c clk lv "file" line fmt] assms(2)
    by (auto dest: set_mono_prefix)
  then have *: "j < length (L_callbacks L)" "\<forall>k \<le> j. cb_fn (L_callbacks L ! k) \<noteq> None"
    "cb_fn (L_callbacks L ! j) = Some f" "cb_level (L_callbacks L ! j) \<le> lv"
    "u = cb_udata (L_callbacks L ! j)"
    unfolding spec_dispatch_mem by simp_all
  have "\<not> first_unused 0 (L_callbacks L) \<le> j"
  proof
    assume a: "first_unused 0 (L_callbacks L) \<le> j"
    then have "first_unused 0 (L_callbacks L) < length (L_callbacks L)" using *(1) by simp
    then have "cb_fn (L_callbacks L ! first_unused 0 (L_callbacks L)) = None"
      by (rule at_first_unused)
    then show False using *(2) a by simp
  qed
  then show ?thesis using * by simp
qed

lemma stdout_callback_out_of_range:
  "\<not> is_level (ev_level ev) \<Longrightarrow> ev_time ev = Some t \<Longrightarrow>
   stdout_callback c ev = Inl OutOfBounds"
  by (auto simp: stdout_callback_def index_table_def is_level_def level_strings_def
      level_colors_def)

lemma file_callback_out_of_range:
  "\<not> is_level (ev_level ev) \<Longrightarrow> ev_time ev = Some t \<Longrightarrow>
   file_callback ev = Inl OutOfBounds"
  by (auto simp: file_callback_def index_table_def is_level_def level_strings_def)

lemma console_out_of_range:
  assumes "\<not> is_level lv" and "\<not> L_quiet L" and "L_level L \<le> lv"
  shows "x_fault (log_log c clk L lv file line fmt) = Some OutOfBounds"
proof -
  let ?x0 = "lock L \<lparr>x_ev = \<lparr>ev_fmt = fmt, ev_file = file, ev_time = None, ev_udata = NULL,
                         ev_line = line, ev_level = lv\<rparr>,
                x_ticks = 0, x_trace = [], x_fault = None\<rparr>"
  let ?x3 = "init_event clk Stderr (emit (Read Level) (emit (Read Quiet) ?x0))"
  have "ev_time (x_ev ?x3) = Some (clk 0)" "\<not> is_level (ev_level (x_ev ?x3))"
    using assms(1) by simp_all
  then have "stdout_callback c (x_ev ?x3) = Inl OutOfBounds"
    using stdout_callback_out_of_range by blast
  then have "x_fault (at_loop c clk L lv file line fmt) = Some OutOfBounds"
    using assms(2,3) by (simp add: at_loop_def log_log_console_def Let_def)
  then show ?thesis by (simp add: log_log_unfold)
qed

lemma file_sink_out_of_range:
  assumes "\<not> is_level lv" and "L_quiet L" and "cb_fn (L_callbacks L ! 0) = Some File_callback"
    and "cb_level (L_callbacks L ! 0) \<le> lv"
  shows "x_fault (log_log c clk L lv file line fmt) = Some OutOfBounds"
proof -
  let ?x = "at_loop c clk L lv file line fmt"
  let ?x1 = "init_event clk (cb_udata (L_callbacks L ! 0)) (emit (Read (Slot 0)) ?x)"
  have nf: "x_fault ?x = None" using assms(2)
    by (simp add: at_loop_def log_log_console_def Let_def)
  have "\<not> is_level (ev_level (x_ev ?x1))" using assms(1) by (simp add: at_loop_ev_level)
  moreover obtain t where "ev_time (x_ev ?x1) = Some t"
    by (cases "ev_time (x_ev ?x)") auto
  ultimately have "file_callback (x_ev ?x1) = Inl OutOfBounds"
    using file_callback_out_of_range by blast
  then have sf: "x_fault (log_log_sink clk 0 File_callback (L_callbacks L ! 0)
      (emit (Read (Slot 0)) ?x)) = Some OutOfBounds"
    by (simp add: log_log_sink_def Let_def)
  have "0 < MAX_CALLBACKS" by (simp add: MAX_CALLBACKS_def)
  from loop_call[OF this assms(3,4), of clk ?x] sf
  have "x_fault (log_log_from 0 clk L lv ?x) = Some OutOfBounds" by simp
  then show ?thesis using nf by (simp add: log_log_unfold)
qed

lemma first_add_slot:
  "L_callbacks (snd (log_add_callback fn u lv L_init)) ! 0 = entry fn u lv"
  using layout_first_unused[OF layout_init]
  by (simp add: log_add_callback_eq[OF L_init_wf]) (simp add: L_init_def MAX_CALLBACKS_def)

lemma add_success:
  assumes "wf_logger L" and "log_add_callback fn u b L = (0, L')"
  shows "first_unused 0 (L_callbacks L) < MAX_CALLBACKS \<and>
     L' = L\<lparr>L_callbacks := (L_callbacks L)[first_unused 0 (L_callbacks L) := entry fn u b]\<rparr>"
  using assms(2) unfolding log_add_callback_eq[OF assms(1)] by (auto split: if_splits)

lemma first_unused_after_add:
  assumes "wf_logger L" and "n = first_unused 0 (L_callbacks L)" and "n < MAX_CALLBACKS"
  shows "n < first_unused 0 ((L_callbacks L)[n := entry (Some f) u b])"
proof -
  let ?cbs = "(L_callbacks L)[n := entry (Some f) u b]"
  have len: "length ?cbs = MAX_CALLBACKS" using assms(1) by (simp add: wf_logger_def)
  have le: "first_unused 0 ?cbs \<le> length ?cbs" by (rule first_unused_le) simp
  show ?thesis
  proof (rule ccontr)
    assume "\<not> n < first_unused 0 ?cbs"
    then have m: "first_unused 0 ?cbs \<le> n" by simp
    then have lt: "first_unused 0 ?cbs < length ?cbs" using assms(3) len by simp
    then have none: "cb_fn (?cbs ! first_unused 0 ?cbs) = None" by (rule at_first_unused)
    show False
    proof (cases "first_unused 0 ?cbs = n")
      case True
      then show ?thesis using none assms(3) len by (simp add: entry_def)
    next
      case False
      then have "first_unused 0 ?cbs < n" using m by simp
      then show ?thesis using none before_first_unused[of "first_unused 0 ?cbs" "L_callbacks L"]
          assms(2) by simp
    qed
  qed
qed

lemma do_call_eq:
  "do_call c L = (case requested c of e \<Rightarrow> log_add_callback (cb_fn e) (cb_udata e) (cb_level e) L)"
  by (cases c) (simp_all add: log_add_fp_def entry_def)

lemma entry_eta: "entry (cb_fn e) (cb_udata e) (cb_level e) = e"
  by (simp add: entry_def)

lemma do_call_layout:
  "layout L es \<Longrightarrow>
   layout (snd (do_call c L)) (take MAX_CALLBACKS (es @ filter occupied [requested c]))"
  using layout_add[of L es "cb_fn (requested c)" "cb_udata (requested c)" "cb_level (requested c)"]
  by (simp add: do_call_eq entry_eta)

lemma take_take_append: "take n (take n xs @ ys) = take n (xs @ ys)"
  by (induction xs arbitrary: n) (auto simp: take_Cons split: nat.splits)

lemma run_calls_layout:
  "layout L es \<Longrightarrow>
   layout (snd (run_calls cs L)) (take MAX_CALLBACKS (es @ filter occupied (map requested cs)))"
proof (induction cs arbitrary: L es)
  case Nil
  then have "length es \<le> MAX_CALLBACKS" by (auto simp: layout_def wf_logger_def)
  then show ?case using Nil by simp
next
  case (Cons c cs)
  let ?es1 = "take MAX_CALLBACKS (es @ filter occupied [requested c])"
  have "layout (snd (run_calls cs (snd (do_call c L))))
     (take MAX_CALLBACKS (?es1 @ filter occupied (map requested cs)))"
    by (rule Cons.IH) (rule do_call_layout[OF Cons.prems])
  moreover have "take MAX_CALLBACKS (?es1 @ filter occupied (map requested cs)) =
      take MAX_CALLBACKS (es @ filter occupied (map requested (c # cs)))"
  proof -
    have e1: "(es @ filter occupied [requested c]) @ filter occupied (map requested cs) =
        es @ filter occupied (map requested (c # cs))" by simp
    have "take MAX_CALLBACKS (?es1 @ filter occupied (map requested cs)) =
        take MAX_CALLBACKS ((es @ filter occupied [requested c]) @ filter occupied (map requested cs))"
      by (rule take_take_append)
    then show ?thesis by (simp only: e1)
  qed
  moreover have "snd (run_calls (c # cs) L) = snd (run_calls cs (snd (do_call c L)))"
    by (simp split: prod.splits)
  ultimately show ?case by simp
qed

lemma layout_contiguous:
  assumes "layout L es" and "i < j" and "j < MAX_CALLBACKS" and "occupied (L_callbacks L ! j)"
  shows "occupied (L_callbacks L ! i)"
proof -
  have n: "first_unused 0 (L_callbacks L) = length es" using assms(1) by (rule layout_first_unused)
  from assms(1) obtain rest where cbs: "L_callbacks L = es @ rest"
    and rest: "list_all (\<lambda>cb. \<not> occupied cb) rest" and wf: "wf_logger L"
    by (auto simp: layout_def)
  have "j < length es"
  proof (rule ccontr)
    assume "\<not> j < length es"
    then have "L_callbacks L ! j = rest ! (j - length es)" "j - length es < length rest"
      using cbs wf assms(3) by (auto simp: nth_append wf_logger_def)
    then show False using rest assms(4) by (simp add: list_all_length)
  qed
  then have "i < first_unused 0 (L_callbacks L)" using assms(2) n by simp
  then show ?thesis using before_first_unused by (simp add: occupied_def)
qed

lemma spec_dispatch_layout:
  "list_all occupied es \<Longrightarrow> list_all (\<lambda>cb. \<not> occupied cb) rest \<Longrightarrow>
   spec_dispatch lv i (es @ rest) = spec_dispatch lv i es"
proof (induction es arbitrary: i)
  case Nil
  then show ?case by (cases rest) (auto simp: occupied_def)
next
  case (Cons e es)
  then show ?case by (cases "cb_fn e") (auto simp: occupied_def)
qed

lemma zero_unoccupied: "\<not> occupied zero_Callback"
  by (simp add: occupied_def zero_Callback_def)

lemma first_unused_filled:
  "list_all occupied es \<Longrightarrow> first_unused 0 (es @ replicate k zero_Callback) = length es"
  by (simp add: first_unused_0 takeWhile_layout list_all_iff zero_unoccupied)

lemma add_to_filled:
  assumes "list_all occupied es" and "length es < MAX_CALLBACKS"
  shows "log_add_callback fn u lv
           (L_init\<lparr>L_callbacks := es @ replicate (MAX_CALLBACKS - length es) zero_Callback\<rparr>) =
         (0, L_init\<lparr>L_callbacks := (es @ [entry fn u lv])
                @ replicate (MAX_CALLBACKS - Suc (length es)) zero_Callback\<rparr>)"
proof -
  let ?L = "L_init\<lparr>L_callbacks := es @ replicate (MAX_CALLBACKS - length es) zero_Callback\<rparr>"
  have wf: "wf_logger ?L" using assms(2) by (simp add: wf_logger_def)
  have fu: "first_unused 0 (L_callbacks ?L) = length es"
    using assms(1) by (simp add: first_unused_filled)
  have rep: "replicate (MAX_CALLBACKS - length es) zero_Callback =
      zero_Callback # replicate (MAX_CALLBACKS - Suc (length es)) zero_Callback"
    using assms(2) by (cases "MAX_CALLBACKS - length es") simp_all
  have "(es @ replicate (MAX_CALLBACKS - length es) zero_Callback)[length es := entry fn u lv] =
      (es @ [entry fn u lv]) @ replicate (MAX_CALLBACKS - Suc (length es)) zero_Callback"
    unfolding rep by simp
  then show ?thesis using assms(2) fu unfolding log_add_callback_eq[OF wf] by simp
qed

lemma run_calls_fill:
  assumes "list_all (\<lambda>c. occupied (requested c)) cs" and "list_all occupied es"
    and "length es + length cs \<le> MAX_CALLBACKS"
  shows "run_calls cs
           (L_init\<lparr>L_callbacks := es @ replicate (MAX_CALLBACKS - length es) zero_Callback\<rparr>) =
         (replicate (length cs) 0,
          L_init\<lparr>L_callbacks := (es @ map requested cs)
             @ replicate (MAX_CALLBACKS - (length es + length cs)) zero_Callback\<rparr>)"
  using assms
proof (induction cs arbitrary: es)
  case Nil
  then show ?case by simp
next
  case (Cons c cs)
  have lt: "length es < MAX_CALLBACKS" using Cons.prems(3) by simp
  have step: "do_call c
      (L_init\<lparr>L_callbacks := es @ replicate (MAX_CALLBACKS - length es) zero_Callback\<rparr>) =
      (0, L_init\<lparr>L_callbacks := (es @ [requested c])
                @ replicate (MAX_CALLBACKS - length (es @ [requested c])) zero_Callback\<rparr>)"
    using add_to_filled[OF Cons.prems(2) lt] by (simp add: do_call_eq entry_eta)
  have "run_calls cs
      (L_init\<lparr>L_callbacks := (es @ [requested c])
         @ replicate (MAX_CALLBACKS - length (es @ [requested c])) zero_Callback\<rparr>) =
      (replicate (length cs) 0,
       L_init\<lparr>L_callbacks := ((es @ [requested c]) @ map requested cs)
         @ replicate (MAX_CALLBACKS - (length (es @ [requested c]) + length cs)) zero_Callback\<rparr>)"
    using Cons.prems by (intro Cons.IH) simp_all
  then show ?case unfolding run_calls.simps step by simp
qed

lemma takeWhile_update_stop:
  "\<not> P e \<Longrightarrow> takeWhile P (xs[length (takeWhile P xs) := e]) = takeWhile P xs"
  by (induction xs) auto

lemma spec_dispatch_takeWhile:
  "spec_dispatch lv i cbs = spec_dispatch lv i (takeWhile occupied cbs)"
proof (induction cbs arbitrary: i)
  case Nil
  then show ?case by simp
next
  case (Cons cb cbs)
  then show ?case by (cases "cb_fn cb") (simp_all add: occupied_def)
qed

section \<open>Properties\<close>

text \<open>
  C1. A sink registered by a successful \<open>log_add_callback\<close> with a callback \<open>f\<close>, data
  pointer \<open>u\<close> and minimum level \<open>b\<close> sits in the first unused slot. An event logged at a
  level \<open>a\<close> of the scale with \<open>a \<ge> b\<close> is delivered to it: \<open>log_log\<close> calls \<open>f\<close> from that
  slot with the event bound to \<open>u\<close>. For \<open>a < b\<close>, whatever the integer \<open>a\<close>, the slot's
  callback is not called.
\<close>

theorem sink_threshold:
  assumes "wf_logger L" and "log_add_callback (Some f) u b L = (0, L')"
  shows "first_unused 0 (L_callbacks L) < MAX_CALLBACKS \<and>
     L_callbacks L' ! first_unused 0 (L_callbacks L) = entry (Some f) u b \<and>
     (is_level a \<and> b \<le> a \<longrightarrow>
        (first_unused 0 (L_callbacks L), f, u)
          \<in> set (sink_calls (x_trace (log_log c clk L' a file line fmt)))) \<and>
     (a < b \<longrightarrow>
        (first_unused 0 (L_callbacks L), f, u)
          \<notin> set (sink_calls (x_trace (log_log c clk L' a file line fmt))))"
proof -
  let ?n = "first_unused 0 (L_callbacks L)"
  from add_success[OF assms] have n: "?n < MAX_CALLBACKS"
    and L': "L' = L\<lparr>L_callbacks := (L_callbacks L)[?n := entry (Some f) u b]\<rparr>" by simp_all
  have wf': "wf_logger L'" using assms(1) L' by (simp add: wf_logger_def)
  have slot: "L_callbacks L' ! ?n = entry (Some f) u b"
    using L' n assms(1) by (simp add: wf_logger_def)
  have reg: "?n < first_unused 0 (L_callbacks L')"
    using first_unused_after_add[OF assms(1) refl n, of f u b] L' by simp
  have pos: "(?n, f, u) \<in> set (sink_calls (x_trace (log_log c clk L' a file line fmt)))"
    if "is_level a" "b \<le> a"
    using registered_delivered[OF wf' that(1) reg, of c clk "file" line fmt] that(2) slot
    by (simp add: entry_def)
  have neg: "(?n, f, u) \<notin> set (sink_calls (x_trace (log_log c clk L' a file line fmt)))"
    if "a < b"
  proof
    assume "(?n, f, u) \<in> set (sink_calls (x_trace (log_log c clk L' a file line fmt)))"
    from delivered_registered[OF wf' this] have "cb_level (L_callbacks L' ! ?n) \<le> a" by simp
    then show False using that slot by (simp add: entry_def)
  qed
  show ?thesis using n slot pos neg by blast
qed

theorem sink_threshold_witness:
  "first_unused 0 (L_callbacks demo_L) = 2 \<and>
   (2, User_fn 8, Addr 3) \<in> set (sink_calls (x_trace
      (log_log False demo_clk (snd (log_add_callback (Some (User_fn 8)) (Addr 3) 2 demo_L))
         4 ''main.c'' 10 ''boot''))) \<and>
   (2, User_fn 8, Addr 3) \<notin> set (sink_calls (x_trace
      (log_log False demo_clk (snd (log_add_callback (Some (User_fn 8)) (Addr 3) 2 demo_L))
         1 ''main.c'' 10 ''boot'')))"
proof -
  have wf: "wf_logger demo_L" by code_simp
  have n: "first_unused 0 (L_callbacks demo_L) = 2" by code_simp
  have add: "log_add_callback (Some (User_fn 8)) (Addr 3) 2 demo_L =
      (0, snd (log_add_callback (Some (User_fn 8)) (Addr 3) 2 demo_L))" by code_simp
  have lv: "is_level 4" by (simp add: is_level_def)
  from sink_threshold[OF wf add, of 4 False demo_clk "''main.c''" 10 "''boot''"]
    sink_threshold[OF wf add, of 1 False demo_clk "''main.c''" 10 "''boot''"] lv n
  show ?thesis by simp
qed

text \<open>
  C2. The built-in renderers index the level tables with the level as it comes. On the
  initial state, \<open>log_log\<close> at level 6 reaches \<open>stdout_callback\<close>, which reads
  \<open>level_strings[6]\<close>, outside the table; with a file sink of minimum level -1 and the
  console quiet, \<open>log_log\<close> at level -1 reaches \<open>file_callback\<close>, which reads
  \<open>level_strings[-1]\<close>. Neither degrades to UNKNOWN.
\<close>

theorem renderers_index_unchecked:
  "x_fault (log_log c clk L_init 6 file line fmt) = Some OutOfBounds \<and>
   x_fault (log_log c clk (log_set_quiet True (snd (log_add_fp fp (- 1) L_init))) (- 1) file line fmt)
     = Some OutOfBounds"
proof
  show "x_fault (log_log c clk L_init 6 file line fmt) = Some OutOfBounds"
    by (rule console_out_of_range) (simp_all add: is_level_def L_init_def)
  show "x_fault (log_log c clk (log_set_quiet True (snd (log_add_fp fp (- 1) L_init))) (- 1)
      file line fmt) = Some OutOfBounds"
    by (rule file_sink_out_of_range)
       (simp_all add: is_level_def log_set_quiet_def log_add_fp_def first_add_slot entry_def)
qed

text \<open>
  C3. Starting from the empty registry, registrations with non-null callbacks, up to 32
  of them, all return 0, and the k-th lands in slot k, the slots behind them staying
  unused. When 32 have been made, a further \<open>log_add_callback\<close> returns -1 and leaves the
  logger, and so all 32 entries, as it was.
\<close>

theorem registry_capacity:
  assumes "length cs \<le> MAX_CALLBACKS" and "list_all (\<lambda>c. occupied (requested c)) cs"
  shows "run_calls cs L_init =
           (replicate (length cs) 0,
            L_init\<lparr>L_callbacks := map requested cs
               @ replicate (MAX_CALLBACKS - length cs) zero_Callback\<rparr>) \<and>
         (length cs = MAX_CALLBACKS \<longrightarrow>
            log_add_callback fn u lv (snd (run_calls cs L_init)) =
              (- 1, snd (run_calls cs L_init)) \<and>
            L_callbacks (snd (run_calls cs L_init)) = map requested cs)"
proof -
  have init: "L_init = L_init\<lparr>L_callbacks := [] @ replicate (MAX_CALLBACKS - length []) zero_Callback\<rparr>"
    by (simp add: L_init_def)
  have run: "run_calls cs L_init =
           (replicate (length cs) 0,
            L_init\<lparr>L_callbacks := map requested cs
               @ replicate (MAX_CALLBACKS - length cs) zero_Callback\<rparr>)"
    using run_calls_fill[OF assms(2), of "[]"] assms(1) init by simp
  have full: "log_add_callback fn u lv (snd (run_calls cs L_init)) =
              (- 1, snd (run_calls cs L_init)) \<and>
            L_callbacks (snd (run_calls cs L_init)) = map requested cs"
    if len: "length cs = MAX_CALLBACKS"
  proof -
    let ?L = "L_init\<lparr>L_callbacks := map requested cs\<rparr>"
    have L: "snd (run_calls cs L_init) = ?L" using run len by simp
    have wf: "wf_logger ?L" using len by (simp add: wf_logger_def)
    have occ: "list_all occupied (map requested cs)" using assms(2) by (simp add: list_all_iff)
    have "first_unused 0 (map requested cs @ replicate 0 zero_Callback) = length (map requested cs)"
      using occ by (rule first_unused_filled)
    then have "first_unused 0 (L_callbacks ?L) = MAX_CALLBACKS" using len by simp
    then show ?thesis unfolding L log_add_callback_eq[OF wf] by simp
  qed
  show ?thesis using run full by blast
qed

theorem registry_capacity_witness:
  "fst (run_calls demo_full L_init) = replicate 32 0 \<and>
   L_callbacks (snd (run_calls demo_full L_init)) = map requested demo_full \<and>
   log_add_callback (Some (User_fn 99)) (Addr 99) 0 (snd (run_calls demo_full L_init)) =
     (- 1, snd (run_calls demo_full L_init))"
proof -
  have len: "length demo_full = MAX_CALLBACKS" by code_simp
  then have le: "length demo_full \<le> MAX_CALLBACKS" by simp
  have occ: "list_all (\<lambda>c. occupied (requested c)) demo_full" by code_simp
  have n: "length demo_full = 32" by code_simp
  note t = registry_capacity[OF le occ, of "Some (User_fn 99)" "Addr 99" 0]
  have a: "fst (run_calls demo_full L_init) = replicate 32 0"
    using conjunct1[OF t] n by simp
  have b: "L_callbacks (snd (run_calls demo_full L_init)) = map requested demo_full \<and>
      log_add_callback (Some (User_fn 99)) (Addr 99) 0 (snd (run_calls demo_full L_init)) =
        (- 1, snd (run_calls demo_full L_init))"
    using conjunct2[OF t] len by blast
  show ?thesis using a b by blast
qed

text \<open>
  C4. While the quiet flag is set, \<open>log_log\<close> does not call the console renderer, whatever
  the level. Every sink in the occupied part of the registry whose minimum level the
  event meets is still called, for the levels of the scale.
\<close>

theorem quiet_silences_console_only:
  assumes "wf_logger L" and "L_quiet L"
  shows "filter is_console (x_trace (log_log c clk L lv file line fmt)) = [] \<and>
     (is_level lv \<and> j < first_unused 0 (L_callbacks L) \<and> cb_level (L_callbacks L ! j) \<le> lv \<longrightarrow>
        (\<exists>f. cb_fn (L_callbacks L ! j) = Some f \<and>
           (j, f, cb_udata (L_callbacks L ! j))
             \<in> set (sink_calls (x_trace (log_log c clk L lv file line fmt)))))"
  using assms registered_delivered[OF assms(1), of lv j c clk "file" line fmt]
  by (simp add: log_log_console_calls)

theorem quiet_silences_console_only_witness:
  "filter is_console
     (x_trace (log_log True demo_clk (log_set_quiet True demo_L) 5 ''main.c'' 1 ''x'')) = [] \<and>
   (1, File_callback, Addr 2) \<in> set (sink_calls
     (x_trace (log_log True demo_clk (log_set_quiet True demo_L) 5 ''main.c'' 1 ''x'')))"
proof -
  have wf: "wf_logger (log_set_quiet True demo_L)" by code_simp
  have q: "L_quiet (log_set_quiet True demo_L)" by code_simp
  have h: "is_level 5 \<and> 1 < first_unused 0 (L_callbacks (log_set_quiet True demo_L)) \<and>
      cb_level (L_callbacks (log_set_quiet True demo_L) ! 1) \<le> 5" by code_simp
  have s: "cb_fn (L_callbacks (log_set_quiet True demo_L) ! 1) = Some File_callback"
     "cb_udata (L_callbacks (log_set_quiet True demo_L) ! 1) = Addr 2" by code_simp+
  from quiet_silences_console_only[OF wf q, of True demo_clk 5 "''main.c''" 1 "''x''" 1] h s
  show ?thesis by simp
qed

text \<open>
  C5. The global level gates the console only. For an event at a level of the scale and
  a registered sink whose minimum level it meets, the sink is called; the console
  renderer is not called when the level is below the global one, and is called exactly
  once, with the event bound to \<open>stderr\<close>, when the level meets it and quiet is off.
\<close>

theorem global_level_filters_console_only:
  assumes "wf_logger L" and "is_level lv" and "j < first_unused 0 (L_callbacks L)"
    and "cb_level (L_callbacks L ! j) \<le> lv"
  shows "(\<exists>f. cb_fn (L_callbacks L ! j) = Some f \<and>
            (j, f, cb_udata (L_callbacks L ! j))
              \<in> set (sink_calls (x_trace (log_log c clk L lv file line fmt)))) \<and>
     (lv < L_level L \<longrightarrow>
        filter is_console (x_trace (log_log c clk L lv file line fmt)) = []) \<and>
     (L_level L \<le> lv \<and> \<not> L_quiet L \<longrightarrow>
        filter is_console (x_trace (log_log c clk L lv file line fmt)) =
          [Console \<lparr>ev_fmt = fmt, ev_file = file, ev_time = Some (clk 0), ev_udata = Stderr,
                     ev_line = line, ev_level = lv\<rparr>])"
  using registered_delivered[OF assms, of c clk "file" line fmt]
  by (simp add: log_log_console_calls)

theorem global_level_filters_console_only_witness:
  "(0, User_fn 7, Addr 1)
     \<in> set (sink_calls (x_trace (log_log False demo_clk demo_warn 2 ''main.c'' 1 ''x''))) \<and>
   filter is_console (x_trace (log_log False demo_clk demo_warn 2 ''main.c'' 1 ''x'')) = [] \<and>
   (0, User_fn 7, Addr 1)
     \<in> set (sink_calls (x_trace (log_log False demo_clk demo_warn 4 ''main.c'' 1 ''x''))) \<and>
   filter is_console (x_trace (log_log False demo_clk demo_warn 4 ''main.c'' 1 ''x'')) =
     [Console \<lparr>ev_fmt = ''x'', ev_file = ''main.c'', ev_time = Some (demo_clk 0),
                ev_udata = Stderr, ev_line = 1, ev_level = 4\<rparr>]"
proof -
  have wf: "wf_logger demo_warn" by code_simp
  have reg: "0 < first_unused 0 (L_callbacks demo_warn)" by code_simp
  have s: "cb_fn (L_callbacks demo_warn ! 0) = Some (User_fn 7)"
    "cb_udata (L_callbacks demo_warn ! 0) = Addr 1" "cb_level (L_callbacks demo_warn ! 0) = 1"
    "L_level demo_warn = 3" "\<not> L_quiet demo_warn"
    by code_simp+
  have l2: "is_level 2" and l4: "is_level 4" by (simp_all add: is_level_def)
  have m2: "cb_level (L_callbacks demo_warn ! 0) \<le> 2"
    and m4: "cb_level (L_callbacks demo_warn ! 0) \<le> 4" using s(3) by simp_all
  from global_level_filters_console_only[OF wf l2 reg m2, of False demo_clk "''main.c''" 1 "''x''"]
    global_level_filters_console_only[OF wf l4 reg m4, of False demo_clk "''main.c''" 1 "''x''"] s
  show ?thesis by simp
qed

text \<open>
  C6. After any sequence of \<open>log_add_callback\<close> and \<open>log_add_fp\<close> calls on the initial
  logger, the occupied slots are the first ones and hold, in the order of the calls, the
  entries registered with a non-null callback (the first 32 of them): no occupied slot
  follows an unused one. For an event at a level of the scale, \<open>log_log\<close> calls the sinks
  of exactly these entries whose minimum level is met, in that order, and the slots it
  touches are 0 up to the first unused one, where it stops.
\<close>

theorem registry_contiguous_and_ordered:
  "takeWhile occupied (L_callbacks (snd (run_calls cs L_init))) =
     take MAX_CALLBACKS (filter occupied (map requested cs)) \<and>
   (\<forall>i j. i < j \<and> j < MAX_CALLBACKS \<and> occupied (L_callbacks (snd (run_calls cs L_init)) ! j)
      \<longrightarrow> occupied (L_callbacks (snd (run_calls cs L_init)) ! i)) \<and>
   (is_level lv \<longrightarrow>
      sink_calls (x_trace (log_log c clk (snd (run_calls cs L_init)) lv file line fmt)) =
        spec_dispatch lv 0 (take MAX_CALLBACKS (filter occupied (map requested cs))) \<and>
      slots_read (x_trace (log_log c clk (snd (run_calls cs L_init)) lv file line fmt)) =
        [0 ..< min MAX_CALLBACKS
                 (Suc (length (take MAX_CALLBACKS (filter occupied (map requested cs)))))])"
proof -
  let ?L = "snd (run_calls cs L_init)"
  let ?es = "take MAX_CALLBACKS (filter occupied (map requested cs))"
  have lay: "layout ?L ?es" using run_calls_layout[OF layout_init, of cs] by simp
  then have wf: "wf_logger ?L" by (simp add: layout_def)
  have a: "takeWhile occupied (L_callbacks ?L) = ?es" using lay by (rule layout_takeWhile)
  have b: "\<forall>i j. i < j \<and> j < MAX_CALLBACKS \<and> occupied (L_callbacks ?L ! j)
      \<longrightarrow> occupied (L_callbacks ?L ! i)"
    using layout_contiguous[OF lay] by blast
  have sd: "spec_dispatch lv 0 (L_callbacks ?L) = spec_dispatch lv 0 ?es"
    using lay by (auto simp: layout_def spec_dispatch_layout)
  have fu: "first_unused 0 (L_callbacks ?L) = length ?es" using lay by (rule layout_first_unused)
  have c: "sink_calls (x_trace (log_log c clk ?L lv file line fmt)) = spec_dispatch lv 0 ?es"
     "slots_read (x_trace (log_log c clk ?L lv file line fmt)) =
        [0 ..< min MAX_CALLBACKS (Suc (length ?es))]" if "is_level lv"
    using log_log_sink_calls[OF wf log_log_no_fault[OF that], of c clk "file" line fmt]
      log_log_slots_read[OF wf log_log_no_fault[OF that], of c clk "file" line fmt] sd fu
    by simp_all
  show ?thesis using a b c by blast
qed

theorem registry_contiguous_and_ordered_witness:
  "takeWhile occupied (L_callbacks (snd (run_calls demo_calls L_init))) =
     [entry (Some (User_fn 1)) (Addr 1) 0, entry (Some File_callback) (Addr 3) 2] \<and>
   sink_calls (x_trace (log_log False demo_clk (snd (run_calls demo_calls L_init)) 2
     ''main.c'' 1 ''x'')) = [(0, User_fn 1, Addr 1), (1, File_callback, Addr 3)] \<and>
   slots_read (x_trace (log_log False demo_clk (snd (run_calls demo_calls L_init)) 2
     ''main.c'' 1 ''x'')) = [0, 1, 2]"
proof -
  have es: "take MAX_CALLBACKS (filter occupied (map requested demo_calls)) =
      [entry (Some (User_fn 1)) (Addr 1) 0, entry (Some File_callback) (Addr 3) 2]"
    by code_simp
  have sd: "spec_dispatch 2 0
      [entry (Some (User_fn 1)) (Addr 1) 0, entry (Some File_callback) (Addr 3) 2] =
      [(0, User_fn 1, Addr 1), (1, File_callback, Addr 3)]"
    by code_simp
  have up: "[0 ..< min MAX_CALLBACKS (Suc (length
      [entry (Some (User_fn 1)) (Addr 1) 0, entry (Some File_callback) (Addr 3) 2]))] = [0, 1, 2]"
    by code_simp
  have lv: "is_level 2" by (simp add: is_level_def)
  from registry_contiguous_and_ordered[of demo_calls 2 False demo_clk "''main.c''" 1 "''x''"] lv
  show ?thesis unfolding es sd up by blast
qed

text \<open>
  C7. With a lock hook installed, the first thing \<open>log_log\<close> does is call the hook with
  \<open>true\<close>; the reading of the quiet flag comes next, and every other reading of the
  global level and of the registry, the reading of the clock and every call of the
  console renderer or of a sink come after it. The hook is not called in between. When
  the call returns, which it does for every level of the scale, the last thing it did
  is one call of the hook with \<open>false\<close>.
\<close>

theorem lock_brackets_dispatch:
  assumes "L_lock L = Some h"
  shows "\<exists>mid. x_trace (log_log c clk L lv file line fmt) =
            LockHook h True (L_udata L) # Read Quiet # mid @
              (if x_fault (log_log c clk L lv file line fmt) = None
               then [LockHook h False (L_udata L)] else []) \<and>
          filter is_lock mid = [] \<and>
          (is_level lv \<longrightarrow> x_fault (log_log c clk L lv file line fmt) = None)"
proof -
  let ?x0 = "lock L \<lparr>x_ev = \<lparr>ev_fmt = fmt, ev_file = file, ev_time = None, ev_udata = NULL,
                         ev_line = line, ev_level = lv\<rparr>,
                x_ticks = 0, x_trace = [], x_fault = None\<rparr>"
  let ?a = "at_loop c clk L lv file line fmt"
  have x0: "x_trace ?x0 = [LockHook h True (L_udata L)]" using assms by simp
  obtain m1 where m1: "x_trace ?a = LockHook h True (L_udata L) # Read Quiet # m1"
    "filter is_lock m1 = []"
    using console_trace[of c clk L lv ?x0] unfolding at_loop_def x0 by auto
  obtain s where s: "x_trace (log_log_from 0 clk L lv ?a) = x_trace ?a @ s" "list_all loop_effect s"
    using loop_appends by blast
  have s': "filter is_lock s = []" using s(2) loop_effect_filters by blast
  have nf: "is_level lv \<longrightarrow> x_fault (log_log c clk L lv file line fmt) = None"
    using log_log_no_fault by blast
  show ?thesis
  proof (cases "x_fault ?a = None")
    case False
    then have "log_log c clk L lv file line fmt = ?a"
      by (subst log_log_unfold) (simp only: if_True if_False simp_thms)
    then show ?thesis using m1 False nf by auto
  next
    case True
    show ?thesis
    proof (cases "x_fault (log_log_from 0 clk L lv ?a) = None")
      case f: False
      then have "log_log c clk L lv file line fmt = log_log_from 0 clk L lv ?a"
        using True by (subst log_log_unfold) (simp only: if_True if_False simp_thms)
      then show ?thesis using m1 s s' f nf
        by (intro exI[of _ "m1 @ s"]) auto
    next
      case t: True
      then have "log_log c clk L lv file line fmt = unlock L (log_log_from 0 clk L lv ?a)"
        using True by (subst log_log_unfold) (simp only: if_True if_False simp_thms)
      then show ?thesis using m1 s s' t nf assms
        by (intro exI[of _ "m1 @ s"]) auto
    qed
  qed
qed

theorem lock_brackets_dispatch_witness:
  "(\<exists>mid. x_trace (log_log True demo_clk demo_L 3 ''main.c'' 1 ''x'') =
      LockHook 5 True (Addr 9) # Read Quiet # mid @ [LockHook 5 False (Addr 9)] \<and>
      filter is_lock mid = []) \<and>
   filter is_lock (x_trace (log_log True demo_clk demo_L 3 ''main.c'' 1 ''x'')) =
     [LockHook 5 True (Addr 9), LockHook 5 False (Addr 9)]"
proof -
  have h: "L_lock demo_L = Some 5" by code_simp
  have u: "L_udata demo_L = Addr 9" by code_simp
  have lv: "is_level 3" by (simp add: is_level_def)
  have e: "filter is_lock (x_trace (log_log True demo_clk demo_L 3 ''main.c'' 1 ''x'')) =
     [LockHook 5 True (Addr 9), LockHook 5 False (Addr 9)]" by code_simp
  from lock_brackets_dispatch[OF h, of True demo_clk 3 "''main.c''" 1 "''x''"] lv u e
  show ?thesis by auto
qed

text \<open>
  C8. Within one call of \<open>log_log\<close> the clock is read at most once: not at all when neither
  the console renderer nor a sink is invoked, once otherwise. No invocation comes before
  the reading, and every event handed to the console renderer or to a sink carries that
  one reading, \<open>clk 0\<close>.
\<close>

theorem timestamp_captured_once:
  "count_list (x_trace (log_log c clk L lv file line fmt)) TimeRead =
     (if events_seen (x_trace (log_log c clk L lv file line fmt)) = [] then 0 else 1) \<and>
   list_all (\<lambda>ev. ev_time ev = Some (clk 0))
     (events_seen (x_trace (log_log c clk L lv file line fmt))) \<and>
   events_seen (takeWhile (\<lambda>e. e \<noteq> TimeRead) (x_trace (log_log c clk L lv file line fmt))) = []"
  using time_once_log_log[of clk c L lv "file" line fmt]
  by (cases "ev_time (x_ev (log_log c clk L lv file line fmt))")
     (auto simp: time_once_def takeWhile_absent)

theorem timestamp_captured_once_witness:
  "(count_list (x_trace (log_log True demo_clk demo_L 3 ''main.c'' 1 ''x'')) TimeRead =
     (if events_seen (x_trace (log_log True demo_clk demo_L 3 ''main.c'' 1 ''x'')) = []
      then 0 else 1) \<and>
   list_all (\<lambda>ev. ev_time ev = Some (demo_clk 0))
     (events_seen (x_trace (log_log True demo_clk demo_L 3 ''main.c'' 1 ''x''))) \<and>
   events_seen (takeWhile (\<lambda>e. e \<noteq> TimeRead)
     (x_trace (log_log True demo_clk demo_L 3 ''main.c'' 1 ''x''))) = []) \<and>
   map ev_time (events_seen (x_trace (log_log True demo_clk demo_L 3 ''main.c'' 1 ''x''))) =
     [Some 100, Some 100, Some 100] \<and>
   count_list (x_trace (log_log True demo_clk L_init (- 1) ''main.c'' 1 ''x'')) TimeRead = 0"
proof (intro conjI)
  show "map ev_time (events_seen (x_trace (log_log True demo_clk demo_L 3 ''main.c'' 1 ''x''))) =
     [Some 100, Some 100, Some 100]"
    by code_simp
  show "count_list (x_trace (log_log True demo_clk L_init (- 1) ''main.c'' 1 ''x'')) TimeRead = 0"
    by code_simp
qed (use timestamp_captured_once[of True demo_clk demo_L 3 "''main.c''" 1 "''x''"] in blast)+

text \<open>
  C9. \<open>log_level_string\<close> returns TRACE, DEBUG, INFO, WARN, ERROR, FATAL for the levels
  0 to 5 and the sentinel UNKNOWN for every negative level and every level of 6 or more.
  The function is total, so the out-of-range case is an ordinary return.
\<close>

theorem log_level_string_names:
  "log_level_string 0 = ''TRACE'' \<and> log_level_string 1 = ''DEBUG'' \<and>
   log_level_string 2 = ''INFO'' \<and> log_level_string 3 = ''WARN'' \<and>
   log_level_string 4 = ''ERROR'' \<and> log_level_string 5 = ''FATAL'' \<and>
   (\<forall>l. l < 0 \<or> 6 \<le> l \<longrightarrow> log_level_string l = ''UNKNOWN'')"
  by (auto simp: log_level_string_def level_strings_def)

theorem log_level_string_names_witness:
  "log_level_string (- 1) = ''UNKNOWN'' \<and> log_level_string 99 = ''UNKNOWN'' \<and>
   log_level_string 3 = ''WARN''"
  using log_level_string_names by simp

text \<open>
  C10. On a logger with an unused slot, \<open>log_add_callback\<close> with a null callback returns
  0 and writes the entry into the first unused slot \<open>n\<close>, which stays the first unused
  slot. \<open>log_log\<close> then calls no sink from slot \<open>n\<close> or beyond; for the levels of the scale
  it touches the slots 0 to \<open>n\<close> and calls the same sinks as before the registration.
  The next \<open>log_add_callback\<close> writes into slot \<open>n\<close> again, with the result it would have
  had without the null registration.
\<close>

theorem null_callback_is_unused_slot:
  assumes "wf_logger L" and "n = first_unused 0 (L_callbacks L)" and "n < MAX_CALLBACKS"
    and "L1 = L\<lparr>L_callbacks := (L_callbacks L)[n := entry None u b]\<rparr>"
  shows "log_add_callback None u b L = (0, L1) \<and>
     L_callbacks L1 ! n = entry None u b \<and>
     first_unused 0 (L_callbacks L1) = n \<and>
     (\<forall>j f p. (j, f, p) \<in> set (sink_calls (x_trace (log_log c clk L1 lv file line fmt)))
        \<longrightarrow> j < n) \<and>
     (is_level lv \<longrightarrow>
        slots_read (x_trace (log_log c clk L1 lv file line fmt)) = [0 ..< Suc n] \<and>
        sink_calls (x_trace (log_log c clk L1 lv file line fmt)) =
          sink_calls (x_trace (log_log c clk L lv file line fmt))) \<and>
     log_add_callback fn' u' b' L1 =
       (0, L\<lparr>L_callbacks := (L_callbacks L)[n := entry fn' u' b']\<rparr>) \<and>
     log_add_callback fn' u' b' L1 = log_add_callback fn' u' b' L"
proof -
  have len: "length (L_callbacks L) = MAX_CALLBACKS" using assms(1) by (simp add: wf_logger_def)
  have wf1: "wf_logger L1" using assms(1,4) by (simp add: wf_logger_def)
  have add: "log_add_callback None u b L = (0, L1)"
    using assms(2,3,4) by (simp add: log_add_callback_eq[OF assms(1)])
  have slot: "L_callbacks L1 ! n = entry None u b" using assms(3,4) len by simp
  have "\<not> occupied (entry None u b)" by (simp add: occupied_def entry_def)
  then have tw: "takeWhile occupied (L_callbacks L1) = takeWhile occupied (L_callbacks L)"
    using takeWhile_update_stop[of occupied "entry None u b" "L_callbacks L"] assms(2,4)
    by (simp add: first_unused_0)
  then have fu1: "first_unused 0 (L_callbacks L1) = n" using assms(2) by (simp add: first_unused_0)
  have bound: "\<forall>j f p. (j, f, p) \<in> set (sink_calls (x_trace (log_log c clk L1 lv file line fmt)))
        \<longrightarrow> j < n"
    using delivered_registered[OF wf1, of _ _ _ c clk lv "file" line fmt] fu1 by blast
  have sd: "spec_dispatch lv 0 (L_callbacks L1) = spec_dispatch lv 0 (L_callbacks L)"
    using spec_dispatch_takeWhile[of lv 0 "L_callbacks L1"]
      spec_dispatch_takeWhile[of lv 0 "L_callbacks L"] by (simp only: tw)
  have run: "slots_read (x_trace (log_log c clk L1 lv file line fmt)) = [0 ..< Suc n] \<and>
        sink_calls (x_trace (log_log c clk L1 lv file line fmt)) =
          sink_calls (x_trace (log_log c clk L lv file line fmt))" if "is_level lv"
    using log_log_slots_read[OF wf1 log_log_no_fault[OF that], of c clk "file" line fmt]
      log_log_sink_calls[OF wf1 log_log_no_fault[OF that], of c clk "file" line fmt]
      log_log_sink_calls[OF assms(1) log_log_no_fault[OF that], of c clk "file" line fmt]
      fu1 assms(3) sd by simp
  have over: "log_add_callback fn' u' b' L1 =
       (0, L\<lparr>L_callbacks := (L_callbacks L)[n := entry fn' u' b']\<rparr>)"
    unfolding log_add_callback_eq[OF wf1] fu1 using assms(3,4) by simp
  have same: "log_add_callback fn' u' b' L = 
       (0, L\<lparr>L_callbacks := (L_callbacks L)[n := entry fn' u' b']\<rparr>)"
    using assms(2,3) by (simp add: log_add_callback_eq[OF assms(1)])
  show ?thesis using add slot fu1 bound run over same by simp
qed

theorem null_callback_is_unused_slot_witness:
  "log_add_callback None (Addr 4) 0 demo_L = (0, demo_null) \<and>
   first_unused 0 (L_callbacks demo_null) = 2 \<and>
   slots_read (x_trace (log_log True demo_clk demo_null 5 ''main.c'' 1 ''x'')) = [0, 1, 2] \<and>
   sink_calls (x_trace (log_log True demo_clk demo_null 5 ''main.c'' 1 ''x'')) =
     sink_calls (x_trace (log_log True demo_clk demo_L 5 ''main.c'' 1 ''x'')) \<and>
   log_add_callback (Some (User_fn 8)) (Addr 5) 1 demo_null =
     log_add_callback (Some (User_fn 8)) (Addr 5) 1 demo_L"
proof -
  have wf: "wf_logger demo_L" by code_simp
  have n: "2 = first_unused 0 (L_callbacks demo_L)" by code_simp
  have lt: "(2::nat) < MAX_CALLBACKS" by code_simp
  have lv: "is_level 5" by (simp add: is_level_def)
  have up: "[0 ..< Suc 2] = [0, 1, 2]" by code_simp
  from null_callback_is_unused_slot[OF wf n lt demo_null_def,
      of True demo_clk 5 "''main.c''" 1 "''x''" "Some (User_fn 8)" "Addr 5" 1] lv
  show ?thesis unfolding up by blast
qed

end
